theory Spec2Isabelle
  imports Complex_Main
begin

section \<open>Data model (types/cpu.ts)\<close>

text \<open>
  A JavaScript \<open>number\<close> that carries data (register and memory values, operands) is
  a rational: exact wherever the double is exact, with rounding and overflow of doubles
  left out. Counters that the engine only ever sets to 0 and increments (clock cycle,
  program counter, hit and miss counts, cursor positions) are naturals. An optional field
  is an \<open>option\<close>, \<open>None\<close> being \<open>undefined\<close>.
\<close>

type_synonym number = rat

text \<open>
  An address is a \<open>number\<close> that the engine compares with \<open>===\<close>, and under
  \<open>===\<close> the number NaN differs from itself. An address, and the value field of a bus
  transfer (which carries addresses as well as data), is therefore a rational or NaN, and
  \<open>strictEq\<close> is \<open>===\<close> on such numbers. (An infinite address equals itself
  like any rational and is not distinguished.)
\<close>

datatype js_number = Finite number | NaN

fun strictEq :: "js_number \<Rightarrow> js_number \<Rightarrow> bool" where
  "strictEq (Finite x) (Finite y) = (x = y)"
| "strictEq _ _ = False"

datatype opcode = LOAD | STORE | ADD | SUB | MUL | DIV | JMP | JZ | JNZ | HALT | MOV

text \<open>An operand is \<open>number | string\<close>; a string operand names a register.\<close>

datatype operand = Num number | Name string

text \<open>
  The \<open>description\<close> of an instruction is display text built from formatted numbers;
  no code of the engine reads it, and it is left out of the record.
\<close>

record instruction =
  i_id :: string
  i_opcode :: opcode
  i_operand1 :: "operand option"
  i_operand2 :: "operand option"
  i_destination :: "string option"
  i_address :: "js_number option"

record register =
  r_name :: string
  r_value :: number
  r_active :: bool
  r_description :: string

text \<open>The optional \<open>label\<close> of a memory location is never set by the engine and is left out.\<close>

record memory_location =
  m_address :: js_number
  m_value :: number
  m_active :: bool
  m_used :: bool

datatype cache_level = L1 | L2 | L3

record cache_line =
  l_address :: js_number
  l_value :: number
  l_valid :: bool
  l_dirty :: bool
  l_lastAccessed :: nat

record cache_state =
  c_level :: cache_level
  c_lines :: "cache_line list"
  c_hits :: nat
  c_misses :: nat
  c_size :: nat
  c_activeAddress :: "js_number option"
  c_isHit :: "bool option"

datatype bus_type = DATA | ADDRESS | CONTROL

text \<open>
  The id of a bus transfer is the string \<open>transfer-<Date.now()>-<Math.random()>\<close>; the
  model keeps the two interpolated readings as a pair.
\<close>

record bus_transfer =
  b_id :: "nat \<times> number"
  b_type :: bus_type
  b_from :: string
  b_to :: string
  b_value :: js_number
  b_active :: bool
  b_timestamp :: nat

datatype instruction_phase = FETCH | DECODE | EXECUTE | STORE_PHASE | IDLE

record register_change =
  rc_name :: string
  rc_oldValue :: number
  rc_newValue :: number

record memory_change =
  mc_address :: js_number
  mc_oldValue :: number
  mc_newValue :: number

record simulation_step =
  s_cycle :: nat
  s_phase :: "instruction_phase option"
  s_instruction :: "instruction option"
  s_registerChanges :: "register_change list"
  s_memoryChanges :: "memory_change list"

datatype example_type = CALCULATOR | TRAFFIC_LIGHT

datatype calc_operation = Plus | Minus | Times | Divide

record calculator_example =
  input1 :: number
  input2 :: number
  operation :: calc_operation
  result :: "number option"
  steps :: "instruction list"

datatype light = RED | YELLOW | GREEN

record traffic_light_example =
  currentState :: light
  timer :: number
  sensorInput :: bool
  t_steps :: "instruction list"

datatype code_view_mode = Assembly | Machine

text \<open>
  The engine object: the private fields of \<open>SimulationEngine\<close> together with its
  \<open>SimulationState\<close> and the \<open>CPUState\<close> inside it, flattened into one record.
  \<open>currentPhase\<close> is \<open>None\<close> when \<open>phases[phaseIndex]\<close> was read out of range.
\<close>

record engine =
  registers :: "register list"
  memory :: "memory_location list"
  cache :: "cache_state list"
  programCounter :: nat
  instructionRegister :: "instruction option"
  currentPhase :: "instruction_phase option"
  clockCycle :: nat
  isRunning :: bool
  isPaused :: bool
  currentExample :: example_type
  speed :: nat
  showCodeView :: bool
  codeViewMode :: code_view_mode
  busTransfers :: "bus_transfer list"
  history :: "simulation_step list"
  instructionIndex :: nat
  currentInstructions :: "instruction list"
  phaseIndex :: nat

text \<open>
  What one call of \<open>addBusTransfer\<close> reads from the host: \<open>Date.now()\<close> and
  \<open>Math.random()\<close> for the id, and \<open>Date.now()\<close> again for the timestamp. A
  \<open>host\<close> gives the readings of the successive calls made during one \<open>step()\<close>.
\<close>

record reading =
  now_id :: nat
  random_id :: number
  now_stamp :: nat

type_synonym host = "nat \<Rightarrow> reading"

text \<open>
  The only exception the engine can raise: a property write on \<open>undefined\<close>, or
  \<open>reduce\<close> of an empty array without an initial value.
\<close>

datatype error = TypeError

section \<open>Array helpers\<close>

text \<open>
  \<open>Array.prototype.find\<close> returns a reference to the first matching element, which the
  engine then mutates in place; the model finds its index and updates the list there.
\<close>

fun findIndex :: "('a \<Rightarrow> bool) \<Rightarrow> 'a list \<Rightarrow> nat option" where
  "findIndex P [] = None"
| "findIndex P (x # xs) = (if P x then Some 0 else map_option Suc (findIndex P xs))"

text \<open>\<open>xs.reduce(f)\<close> without an initial value: a TypeError on the empty array.\<close>

fun reduce :: "('a \<Rightarrow> 'a \<Rightarrow> 'a) \<Rightarrow> 'a list \<Rightarrow> 'a option" where
  "reduce f [] = None"
| "reduce f (x # xs) = Some (foldl f x xs)"

definition nthOpt :: "'a list \<Rightarrow> nat \<Rightarrow> 'a option" where
  "nthOpt xs i = (if i < length xs then Some (xs ! i) else None)"

section \<open>Instruction generators (instructionSet.ts)\<close>

definition generateCalculatorInstructions ::
  "number \<Rightarrow> number \<Rightarrow> calc_operation \<Rightarrow> instruction list" where
  "generateCalculatorInstructions operand1 operand2 opn =
     [\<lparr>i_id = ''load1'', i_opcode = LOAD, i_operand1 = Some (Num operand1),
       i_operand2 = None, i_destination = Some ''R1'', i_address = None\<rparr>,
      \<lparr>i_id = ''load2'', i_opcode = LOAD, i_operand1 = Some (Num operand2),
       i_operand2 = None, i_destination = Some ''R2'', i_address = None\<rparr>,
      \<lparr>i_id = ''compute'',
       i_opcode = (case opn of Plus \<Rightarrow> ADD | Minus \<Rightarrow> SUB | Times \<Rightarrow> MUL | Divide \<Rightarrow> DIV),
       i_operand1 = Some (Name ''R1''), i_operand2 = Some (Name ''R2''),
       i_destination = Some ''R3'', i_address = None\<rparr>,
      \<lparr>i_id = ''store'', i_opcode = STORE, i_operand1 = None, i_operand2 = None,
       i_destination = Some ''R3'', i_address = Some (Finite 256)\<rparr>]"

definition generateTrafficLightInstructions :: "light \<Rightarrow> bool \<Rightarrow> instruction list" where
  "generateTrafficLightInstructions cur sensor =
     [\<lparr>i_id = ''load_sensor'', i_opcode = LOAD,
       i_operand1 = Some (Num (if sensor then 1 else 0)),
       i_operand2 = None, i_destination = Some ''R1'', i_address = None\<rparr>,
      \<lparr>i_id = ''load_state'', i_opcode = LOAD,
       i_operand1 = Some (Num (if cur = RED then 0 else if cur = YELLOW then 1 else 2)),
       i_operand2 = None, i_destination = Some ''R2'', i_address = None\<rparr>]
     @ (if cur = RED \<and> sensor then
          [\<lparr>i_id = ''set_green'', i_opcode = MOV, i_operand1 = Some (Num 2),
            i_operand2 = None, i_destination = Some ''R3'', i_address = None\<rparr>]
        else if cur = GREEN then
          [\<lparr>i_id = ''set_yellow'', i_opcode = MOV, i_operand1 = Some (Num 1),
            i_operand2 = None, i_destination = Some ''R3'', i_address = None\<rparr>]
        else if cur = YELLOW then
          [\<lparr>i_id = ''set_red'', i_opcode = MOV, i_operand1 = Some (Num 0),
            i_operand2 = None, i_destination = Some ''R3'', i_address = None\<rparr>]
        else [])
     @ [\<lparr>i_id = ''store_output'', i_opcode = STORE, i_operand1 = None, i_operand2 = None,
         i_destination = Some ''R3'', i_address = Some (Finite 512)\<rparr>]"

section \<open>The simulation engine (simulationEngine.ts)\<close>

definition phases :: "instruction_phase list" where
  "phases = [FETCH, DECODE, EXECUTE, STORE_PHASE]"

definition freshLine :: cache_line where
  "freshLine = \<lparr>l_address = Finite 0, l_value = 0, l_valid = False, l_dirty = False,
                 l_lastAccessed = 0\<rparr>"

definition freshCache :: "cache_level \<Rightarrow> nat \<Rightarrow> cache_state" where
  "freshCache lv n = \<lparr>c_level = lv, c_lines = replicate n freshLine, c_hits = 0,
     c_misses = 0, c_size = n, c_activeAddress = None, c_isHit = None\<rparr>"

definition initialMemory :: "memory_location list" where
  "initialMemory = map (\<lambda>i. \<lparr>m_address = Finite (of_nat i), m_value = 0, m_active = False,
                                  m_used = False\<rparr>) [0..<256]"

definition createInitialState :: engine where
  "createInitialState =
     \<lparr>registers =
        [\<lparr>r_name = ''R1'', r_value = 0, r_active = False,
          r_description = ''General purpose register 1''\<rparr>,
         \<lparr>r_name = ''R2'', r_value = 0, r_active = False,
          r_description = ''General purpose register 2''\<rparr>,
         \<lparr>r_name = ''R3'', r_value = 0, r_active = False,
          r_description = ''General purpose register 3 (accumulator)''\<rparr>,
         \<lparr>r_name = ''PC'', r_value = 0, r_active = False,
          r_description = ''Program counter''\<rparr>,
         \<lparr>r_name = ''IR'', r_value = 0, r_active = False,
          r_description = ''Instruction register''\<rparr>],
      memory = initialMemory,
      cache = [freshCache L1 8, freshCache L2 16, freshCache L3 32],
      programCounter = 0,
      instructionRegister = None,
      currentPhase = Some IDLE,
      clockCycle = 0,
      isRunning = False,
      isPaused = False,
      currentExample = CALCULATOR,
      speed = 1000,
      showCodeView = True,
      codeViewMode = Assembly,
      busTransfers = [],
      history = [],
      instructionIndex = 0,
      currentInstructions = [],
      phaseIndex = 0\<rparr>"

text \<open>\<open>reset()\<close> replaces the state by a fresh one and clears the cursor and the program.\<close>

definition reset :: "engine \<Rightarrow> engine" where
  "reset e = createInitialState"

text \<open>
  \<open>setExample(exampleType, exampleData?)\<close>. The argument pairs the example type with
  data of that type, or with no data; the call that casts data of the other example's
  type is outside the model.
\<close>

datatype example =
  CalculatorData calculator_example
  | TrafficLightData traffic_light_example
  | NoData example_type

definition exampleTypeOf :: "example \<Rightarrow> example_type" where
  "exampleTypeOf x = (case x of CalculatorData _ \<Rightarrow> CALCULATOR
                       | TrafficLightData _ \<Rightarrow> TRAFFIC_LIGHT | NoData t \<Rightarrow> t)"

definition setExample :: "example \<Rightarrow> engine \<Rightarrow> engine" where
  "setExample x e =
     e\<lparr>currentExample := exampleTypeOf x,
       instructionIndex := 0,
       phaseIndex := 0,
       currentInstructions :=
         (case x of
            CalculatorData calcData \<Rightarrow>
              generateCalculatorInstructions (input1 calcData) (input2 calcData)
                (operation calcData)
          | TrafficLightData trafficData \<Rightarrow>
              generateTrafficLightInstructions (currentState trafficData)
                (sensorInput trafficData)
          | NoData _ \<Rightarrow> currentInstructions e),
       programCounter := 0,
       instructionRegister := None,
       currentPhase := Some IDLE,
       clockCycle := 0,
       busTransfers := [],
       history := [],
       memory := map (\<lambda>mem. mem\<lparr>m_used := False, m_active := False\<rparr>) (memory e)\<rparr>"

text \<open>
  \<open>addBusTransfer\<close> appends a record to the log. Its timer, which later clears the
  \<open>active\<close> flag of that record, is the separate operation \<open>expireTransfer\<close>.
\<close>

definition addBusTransfer ::
  "reading \<Rightarrow> bus_type \<Rightarrow> string \<Rightarrow> string \<Rightarrow> js_number \<Rightarrow> engine \<Rightarrow> engine" where
  "addBusTransfer rd ty src dst v e =
     e\<lparr>busTransfers := busTransfers e @
         [\<lparr>b_id = (now_id rd, random_id rd), b_type = ty, b_from = src, b_to = dst,
           b_value = v, b_active = True, b_timestamp = now_stamp rd\<rparr>]\<rparr>"

definition expireTransfer :: "nat \<times> number \<Rightarrow> engine \<Rightarrow> engine" where
  "expireTransfer tid e =
     (case findIndex (\<lambda>t. b_id t = tid) (busTransfers e) of
        None \<Rightarrow> e
      | Some i \<Rightarrow> e\<lparr>busTransfers :=
                      (busTransfers e)[i := (busTransfers e ! i)\<lparr>b_active := False\<rparr>]\<rparr>)"

definition clearActive :: "cache_state list \<Rightarrow> cache_state list" where
  "clearActive cs = map (\<lambda>c. c\<lparr>c_activeAddress := None, c_isHit := None\<rparr>) cs"

text \<open>The timer set by the STORE phase: clears the cache's active states.\<close>

definition clearCacheActive :: "engine \<Rightarrow> engine" where
  "clearCacheActive e = e\<lparr>cache := clearActive (cache e)\<rparr>"

definition levelName :: "cache_level \<Rightarrow> string" where
  "levelName lv = (case lv of L1 \<Rightarrow> ''L1'' | L2 \<Rightarrow> ''L2'' | L3 \<Rightarrow> ''L3'')"

subsection \<open>checkCache\<close>

text \<open>The test \<open>l.valid && l.address === address\<close> of both hit scans.\<close>

definition holds :: "js_number \<Rightarrow> cache_line \<Rightarrow> bool" where
  "holds a l = (l_valid l \<and> strictEq (l_address l) a)"

text \<open>
  The hit scan of \<open>checkCache\<close>: for each level of \<open>[L1, L2, L3]\<close> in turn, the first
  cache of that level and in it the first valid line with the address.
\<close>

fun readScan ::
  "cache_level list \<Rightarrow> js_number \<Rightarrow> nat \<Rightarrow> cache_state list \<Rightarrow>
     (cache_level \<times> cache_state list) option" where
  "readScan [] a cyc cs = None"
| "readScan (lv # lvs) a cyc cs =
     (case findIndex (\<lambda>c. c_level c = lv) cs of
        None \<Rightarrow> readScan lvs a cyc cs
      | Some ci \<Rightarrow>
          (case findIndex (holds a) (c_lines (cs ! ci)) of
             None \<Rightarrow> readScan lvs a cyc cs
           | Some li \<Rightarrow>
               Some (c_level (cs ! ci),
                 cs[ci := (cs ! ci)\<lparr>c_hits := c_hits (cs ! ci) + 1,
                      c_activeAddress := Some a, c_isHit := Some True,
                      c_lines := (c_lines (cs ! ci))
                         [li := (c_lines (cs ! ci) ! li)\<lparr>l_lastAccessed := cyc\<rparr>]\<rparr>])))"

definition older :: "nat \<times> cache_line \<Rightarrow> nat \<times> cache_line \<Rightarrow> nat \<times> cache_line" where
  "older oldest current =
     (if l_lastAccessed (snd current) < l_lastAccessed (snd oldest) then current else oldest)"

text \<open>
  The line that the read path overwrites on a miss, as its index in \<open>lines\<close>:
  \<open>validLines.reduce(...)\<close> when some line is valid, else \<open>lines[0]\<close>, which is
  \<open>undefined\<close> (\<open>None\<close>) for an empty array.
\<close>

definition readVictim :: "cache_line list \<Rightarrow> nat option" where
  "readVictim ls =
     (let validLines = filter (\<lambda>p. l_valid (snd p)) (enumerate 0 ls)
      in if length validLines > 0 then map_option fst (reduce older validLines)
         else if ls = [] then None else Some 0)"

definition memoryValue :: "js_number \<Rightarrow> memory_location list \<Rightarrow> number" where
  "memoryValue a mem =
     (case findIndex (\<lambda>m. strictEq (m_address m) a) mem of
        None \<Rightarrow> 0
      | Some mi \<Rightarrow> m_value (mem ! mi))"

definition checkCache ::
  "js_number \<Rightarrow> engine \<Rightarrow> error + ((cache_level \<times> bool) \<times> engine)" where
  "checkCache a e =
     (let cs = clearActive (cache e) in
      case readScan [L1, L2, L3] a (clockCycle e) cs of
        Some (lv, cs') \<Rightarrow> Inr ((lv, True), e\<lparr>cache := cs'\<rparr>)
      | None \<Rightarrow>
          (case findIndex (\<lambda>c. c_level c = L1) cs of
             None \<Rightarrow> Inr ((L1, False), e\<lparr>cache := cs\<rparr>)
           | Some ci \<Rightarrow>
               (case readVictim (c_lines (cs ! ci)) of
                  None \<Rightarrow> Inl TypeError
                | Some li \<Rightarrow>
                    Inr ((L1, False),
                      e\<lparr>cache := cs[ci := (cs ! ci)\<lparr>c_misses := c_misses (cs ! ci) + 1,
                           c_activeAddress := Some a, c_isHit := Some False,
                           c_lines := (c_lines (cs ! ci))
                              [li := \<lparr>l_address = a, l_value = memoryValue a (memory e),
                                      l_valid = True, l_dirty = False,
                                      l_lastAccessed = clockCycle e\<rparr>]\<rparr>]\<rparr>))))"

subsection \<open>updateCache\<close>

text \<open>
  The hit scan of \<open>updateCache\<close>: the caches in array order, and in each the first valid
  line with the address.
\<close>

fun writeScan ::
  "cache_state list \<Rightarrow> js_number \<Rightarrow> number \<Rightarrow> nat \<Rightarrow>
     (cache_level \<times> cache_state list) option" where
  "writeScan [] a v cyc = None"
| "writeScan (c # cs) a v cyc =
     (case findIndex (holds a) (c_lines c) of
        Some li \<Rightarrow>
          Some (c_level c,
            c\<lparr>c_hits := c_hits c + 1, c_activeAddress := Some a, c_isHit := Some True,
              c_lines := (c_lines c)
                 [li := (c_lines c ! li)\<lparr>l_value := v, l_dirty := True,
                                          l_lastAccessed := cyc\<rparr>]\<rparr> # cs)
      | None \<Rightarrow> map_option (\<lambda>(lv, cs'). (lv, c # cs')) (writeScan cs a v cyc))"

text \<open>
  The line that the write path overwrites on a miss: \<open>lines.reduce(...)\<close> over all the
  lines of L1, valid or not.
\<close>

definition writeVictim :: "cache_line list \<Rightarrow> nat option" where
  "writeVictim ls = map_option fst (reduce older (enumerate 0 ls))"

definition updateCache ::
  "js_number \<Rightarrow> number \<Rightarrow> engine \<Rightarrow> error + ((cache_level \<times> bool) \<times> engine)" where
  "updateCache a v e =
     (let cs = clearActive (cache e) in
      case writeScan cs a v (clockCycle e) of
        Some (lv, cs') \<Rightarrow> Inr ((lv, True), e\<lparr>cache := cs'\<rparr>)
      | None \<Rightarrow>
          (case findIndex (\<lambda>c. c_level c = L1) cs of
             None \<Rightarrow> Inr ((L1, False), e\<lparr>cache := cs\<rparr>)
           | Some ci \<Rightarrow>
               (case writeVictim (c_lines (cs ! ci)) of
                  None \<Rightarrow> Inl TypeError
                | Some li \<Rightarrow>
                    Inr ((L1, False),
                      e\<lparr>cache := cs[ci := (cs ! ci)\<lparr>c_misses := c_misses (cs ! ci) + 1,
                           c_activeAddress := Some a, c_isHit := Some False,
                           c_lines := (c_lines (cs ! ci))
                              [li := \<lparr>l_address = a, l_value = v, l_valid = True,
                                      l_dirty = True,
                                      l_lastAccessed = clockCycle e\<rparr>]\<rparr>]\<rparr>))))"

subsection \<open>The four phases\<close>

text \<open>
  Each phase receives the history record of the current step and may append deltas to
  it; it returns that record with the engine.
\<close>

definition executeFetch ::
  "host \<Rightarrow> instruction \<Rightarrow> simulation_step \<Rightarrow> engine \<Rightarrow> simulation_step \<times> engine" where
  "executeFetch h ins st e =
     (let e1 = e\<lparr>instructionRegister := Some ins, programCounter := programCounter e + 1\<rparr>;
          (st', e2) =
            (case findIndex (\<lambda>r. r_name r = ''PC'') (registers e1) of
               None \<Rightarrow> (st, e1)
             | Some pci \<Rightarrow>
                 (st\<lparr>s_registerChanges := s_registerChanges st @
                     [\<lparr>rc_name = ''PC'', rc_oldValue = r_value (registers e1 ! pci),
                       rc_newValue = of_nat (programCounter e1)\<rparr>]\<rparr>,
                  e1\<lparr>registers := (registers e1)
                     [pci := (registers e1 ! pci)\<lparr>r_value := of_nat (programCounter e1),
                                                 r_active := True\<rparr>]\<rparr>))
      in (st', addBusTransfer (h 1) DATA ''Memory'' ''IR'' (Finite 0)
                (addBusTransfer (h 0) ADDRESS ''PC'' ''Memory''
                   (Finite (of_nat (programCounter e2))) e2)))"

definition executeDecode ::
  "instruction \<Rightarrow> simulation_step \<Rightarrow> engine \<Rightarrow> simulation_step \<times> engine" where
  "executeDecode ins st e =
     (case findIndex (\<lambda>r. r_name r = ''IR'') (registers e) of
        None \<Rightarrow> (st, e)
      | Some ii \<Rightarrow>
          (st, e\<lparr>registers := (registers e)[ii := (registers e ! ii)\<lparr>r_active := True\<rparr>]\<rparr>))"

text \<open>
  JavaScript truthiness of an optional operand and of an optional string: \<open>undefined\<close>,
  the number 0 and the empty string are falsy.
\<close>

fun truthy :: "operand option \<Rightarrow> bool" where
  "truthy None = False"
| "truthy (Some (Num n)) = (n \<noteq> 0)"
| "truthy (Some (Name s)) = (s \<noteq> [])"

fun truthyStr :: "string option \<Rightarrow> bool" where
  "truthyStr None = False"
| "truthyStr (Some s) = (s \<noteq> [])"

definition setRegister :: "nat \<Rightarrow> number \<Rightarrow> register list \<Rightarrow> register list" where
  "setRegister ri v rs = rs[ri := (rs ! ri)\<lparr>r_value := v, r_active := True\<rparr>]"

definition activate :: "nat \<Rightarrow> register list \<Rightarrow> register list" where
  "activate ri rs = rs[ri := (rs ! ri)\<lparr>r_active := True\<rparr>]"

definition pushRegisterChange ::
  "string \<Rightarrow> number \<Rightarrow> number \<Rightarrow> simulation_step \<Rightarrow> simulation_step" where
  "pushRegisterChange nm old new st =
     st\<lparr>s_registerChanges := s_registerChanges st @
          [\<lparr>rc_name = nm, rc_oldValue = old, rc_newValue = new\<rparr>]\<rparr>"

text \<open>The \<open>LOAD\<close> case of \<open>executeExecute\<close>.\<close>

definition executeLOAD ::
  "host \<Rightarrow> instruction \<Rightarrow> simulation_step \<Rightarrow> engine \<Rightarrow> error + (simulation_step \<times> engine)" where
  "executeLOAD h ins st e =
     (case (i_operand1 ins, i_destination ins) of
        (Some (Num operand1), Some destination) \<Rightarrow>
          if destination = [] then Inr (st, e)
          else
            (case findIndex (\<lambda>r. r_name r = destination) (registers e) of
               None \<Rightarrow> Inr (st, e)
             | Some ri \<Rightarrow>
                 (case i_address ins of
                    Some a \<Rightarrow>
                      (case checkCache a e of
                         Inl err \<Rightarrow> Inl err
                       | Inr (cacheResult, e1) \<Rightarrow>
                           (let memLoc = findIndex (\<lambda>m. strictEq (m_address m) a) (memory e1);
                                memValue =
                                  (case memLoc of
                                     None \<Rightarrow> operand1
                                   | Some mi \<Rightarrow>
                                       if m_value (memory e1 ! mi) \<noteq> 0
                                       then m_value (memory e1 ! mi) else operand1);
                                e2 = (case memLoc of
                                        None \<Rightarrow> e1
                                      | Some mi \<Rightarrow>
                                          e1\<lparr>memory := (memory e1)
                                             [mi := (memory e1 ! mi)\<lparr>m_used := True\<rparr>]\<rparr>);
                                st' = pushRegisterChange destination
                                        (r_value (registers e2 ! ri)) memValue st;
                                e3 = e2\<lparr>registers := setRegister ri memValue (registers e2)\<rparr>
                            in if snd cacheResult then
                                 Inr (st', addBusTransfer (h 0) DATA
                                        (levelName (fst cacheResult)) destination
                                        (Finite memValue) e3)
                               else
                                 Inr (st', addBusTransfer (h 1) DATA
                                        (levelName (fst cacheResult)) destination
                                        (Finite memValue)
                                        (addBusTransfer (h 0) DATA ''Memory''
                                           (levelName (fst cacheResult)) (Finite memValue)
                                           e3))))
                  | None \<Rightarrow>
                      Inr (pushRegisterChange destination (r_value (registers e ! ri))
                             operand1 st,
                           addBusTransfer (h 0) DATA ''CPU'' destination (Finite operand1)
                             (e\<lparr>registers := setRegister ri operand1 (registers e)\<rparr>))))
      | _ \<Rightarrow> Inr (st, e))"

text \<open>The \<open>STORE\<close> case of \<open>executeExecute\<close>.\<close>

definition executeSTORE ::
  "host \<Rightarrow> instruction \<Rightarrow> simulation_step \<Rightarrow> engine \<Rightarrow> error + (simulation_step \<times> engine)" where
  "executeSTORE h ins st e =
     (case (i_destination ins, i_address ins) of
        (Some destination, Some a) \<Rightarrow>
          if destination = [] then Inr (st, e)
          else
            (case findIndex (\<lambda>r. r_name r = destination) (registers e) of
               None \<Rightarrow> Inr (st, e)
             | Some ri \<Rightarrow>
                 (case findIndex (\<lambda>m. strictEq (m_address m) a) (memory e) of
                    None \<Rightarrow> Inr (st, e)
                  | Some mi \<Rightarrow>
                      (let v = r_value (registers e ! ri);
                           st' = st\<lparr>s_memoryChanges := s_memoryChanges st @
                                   [\<lparr>mc_address = m_address (memory e ! mi),
                                     mc_oldValue = m_value (memory e ! mi),
                                     mc_newValue = v\<rparr>]\<rparr>;
                           e1 = e\<lparr>memory := (memory e)
                                  [mi := (memory e ! mi)\<lparr>m_value := v, m_active := True,
                                                          m_used := True\<rparr>]\<rparr>
                       in case updateCache a v e1 of
                            Inl err \<Rightarrow> Inl err
                          | Inr (cacheResult, e2) \<Rightarrow>
                              (let e3 = addBusTransfer (h 1) DATA destination
                                          (levelName (fst cacheResult)) (Finite v)
                                          (addBusTransfer (h 0) ADDRESS ''CPU'' ''Memory'' a e2)
                               in if snd cacheResult then Inr (st', e3)
                                  else Inr (st', addBusTransfer (h 2) DATA
                                         (levelName (fst cacheResult)) ''Memory'' (Finite v)
                                         e3)))))
      | _ \<Rightarrow> Inr (st, e))"

text \<open>
  The \<open>ADD\<close>/\<open>SUB\<close>/\<open>MUL\<close>/\<open>DIV\<close> case of \<open>executeExecute\<close>. A numeric operand
  stands for the register R1 (first operand) or R2 (second operand) in the lookups and
  the bus labels, and for itself in the arithmetic.
\<close>

definition operandRegister :: "operand \<Rightarrow> string \<Rightarrow> string" where
  "operandRegister opd dflt = (case opd of Name s \<Rightarrow> s | Num _ \<Rightarrow> dflt)"

definition operandValue :: "operand \<Rightarrow> register \<Rightarrow> number" where
  "operandValue opd reg = (case opd of Num n \<Rightarrow> n | Name _ \<Rightarrow> r_value reg)"

definition aluResult :: "opcode \<Rightarrow> number \<Rightarrow> number \<Rightarrow> number" where
  "aluResult opc val1 val2 =
     (case opc of
        ADD \<Rightarrow> val1 + val2
      | SUB \<Rightarrow> val1 - val2
      | MUL \<Rightarrow> val1 * val2
      | DIV \<Rightarrow> (if val2 \<noteq> 0 then val1 / val2 else 0)
      | _ \<Rightarrow> 0)"

definition executeALU ::
  "host \<Rightarrow> instruction \<Rightarrow> simulation_step \<Rightarrow> engine \<Rightarrow> error + (simulation_step \<times> engine)" where
  "executeALU h ins st e =
     (if truthy (i_operand1 ins) \<and> truthy (i_operand2 ins) \<and> truthyStr (i_destination ins)
      then
        (case (i_operand1 ins, i_operand2 ins, i_destination ins) of
           (Some operand1, Some operand2, Some destination) \<Rightarrow>
             (case (findIndex (\<lambda>r. r_name r = operandRegister operand1 ''R1'') (registers e),
                    findIndex (\<lambda>r. r_name r = operandRegister operand2 ''R2'') (registers e),
                    findIndex (\<lambda>r. r_name r = destination) (registers e)) of
                (Some i1, Some i2, Some di) \<Rightarrow>
                  (let val1 = operandValue operand1 (registers e ! i1);
                       val2 = operandValue operand2 (registers e ! i2);
                       res = aluResult (i_opcode ins) val1 val2;
                       st' = pushRegisterChange destination (r_value (registers e ! di)) res st;
                       e1 = e\<lparr>registers :=
                              activate i2 (activate i1 (setRegister di res (registers e)))\<rparr>
                   in Inr (st',
                        addBusTransfer (h 3) DATA ''ALU'' destination (Finite res)
                          (addBusTransfer (h 2) CONTROL ''ControlUnit'' ''ALU'' (Finite 0)
                             (addBusTransfer (h 1) DATA (operandRegister operand2 ''R2'')
                                ''ALU'' (Finite val2)
                                (addBusTransfer (h 0) DATA (operandRegister operand1 ''R1'')
                                   ''ALU'' (Finite val1) e1)))))
              | _ \<Rightarrow> Inr (st, e))
         | _ \<Rightarrow> Inr (st, e))
      else Inr (st, e))"

text \<open>The \<open>MOV\<close> case of \<open>executeExecute\<close>.\<close>

definition executeMOV ::
  "instruction \<Rightarrow> simulation_step \<Rightarrow> engine \<Rightarrow> error + (simulation_step \<times> engine)" where
  "executeMOV ins st e =
     (case (i_operand1 ins, i_destination ins) of
        (Some (Num operand1), Some destination) \<Rightarrow>
          if destination = [] then Inr (st, e)
          else
            (case findIndex (\<lambda>r. r_name r = destination) (registers e) of
               None \<Rightarrow> Inr (st, e)
             | Some ri \<Rightarrow>
                 Inr (pushRegisterChange destination (r_value (registers e ! ri)) operand1 st,
                      e\<lparr>registers := setRegister ri operand1 (registers e)\<rparr>))
      | _ \<Rightarrow> Inr (st, e))"

definition executeExecute ::
  "host \<Rightarrow> instruction \<Rightarrow> simulation_step \<Rightarrow> engine \<Rightarrow> error + (simulation_step \<times> engine)" where
  "executeExecute h ins st e =
     (case i_opcode ins of
        LOAD \<Rightarrow> executeLOAD h ins st e
      | STORE \<Rightarrow> executeSTORE h ins st e
      | ADD \<Rightarrow> executeALU h ins st e
      | SUB \<Rightarrow> executeALU h ins st e
      | MUL \<Rightarrow> executeALU h ins st e
      | DIV \<Rightarrow> executeALU h ins st e
      | MOV \<Rightarrow> executeMOV ins st e
      | _ \<Rightarrow> Inr (st, e))"

text \<open>
  The STORE phase. The timer it sets, which clears the cache's active states after
  \<open>speed\<close> milliseconds, is the separate operation \<open>clearCacheActive\<close>.
\<close>

definition executeStore ::
  "instruction \<Rightarrow> simulation_step \<Rightarrow> engine \<Rightarrow> simulation_step \<times> engine" where
  "executeStore ins st e =
     (st, e\<lparr>registers :=
              map (\<lambda>reg. if r_name reg \<noteq> ''PC'' \<and> r_name reg \<noteq> ''IR''
                          then reg\<lparr>r_active := False\<rparr> else reg) (registers e),
            memory := map (\<lambda>mem. mem\<lparr>m_active := False\<rparr>) (memory e)\<rparr>)"

subsection \<open>step\<close>

definition advance :: "engine \<Rightarrow> engine" where
  "advance e =
     (if phaseIndex e + 1 \<ge> length phases
      then e\<lparr>phaseIndex := 0, instructionIndex := instructionIndex e + 1\<rparr>
      else e\<lparr>phaseIndex := phaseIndex e + 1\<rparr>)"

definition step :: "host \<Rightarrow> engine \<Rightarrow> error + (bool \<times> engine)" where
  "step h e =
     (if length (currentInstructions e) = 0 then Inr (False, e)
      else if instructionIndex e \<ge> length (currentInstructions e) then Inr (False, e)
      else
        (let ins = currentInstructions e ! instructionIndex e;
             phase = nthOpt phases (phaseIndex e);
             e1 = e\<lparr>currentPhase := phase, clockCycle := clockCycle e + 1\<rparr>;
             st = \<lparr>s_cycle = clockCycle e1, s_phase = phase, s_instruction = Some ins,
                   s_registerChanges = [], s_memoryChanges = []\<rparr>
         in case (case phase of
                    Some FETCH \<Rightarrow> Inr (executeFetch h ins st e1)
                  | Some DECODE \<Rightarrow> Inr (executeDecode ins st e1)
                  | Some EXECUTE \<Rightarrow> executeExecute h ins st e1
                  | Some STORE_PHASE \<Rightarrow> Inr (executeStore ins st e1)
                  | _ \<Rightarrow> Inr (st, e1)) of
              Inl err \<Rightarrow> Inl err
            | Inr (st', e2) \<Rightarrow>
                (let e3 = advance (e2\<lparr>history := history e2 @ [st']\<rparr>)
                 in Inr (instructionIndex e3 < length (currentInstructions e3), e3))))"

text \<open>
  \<open>run hs n e\<close> calls \<open>step()\<close> \<open>n\<close> times, the \<open>k\<close>-th call (from 0) under the host
  readings \<open>hs k\<close>, and collects the returned booleans in order.
\<close>

fun run :: "(nat \<Rightarrow> host) \<Rightarrow> nat \<Rightarrow> engine \<Rightarrow> error + (bool list \<times> engine)" where
  "run hs 0 e = Inr ([], e)"
| "run hs (Suc n) e =
     (case step (hs 0) e of
        Inl err \<Rightarrow> Inl err
      | Inr (b, e') \<Rightarrow>
          (case run (\<lambda>k. hs (Suc k)) n e' of
             Inl err \<Rightarrow> Inl err
           | Inr (bs, e'') \<Rightarrow> Inr (b # bs, e'')))"

section \<open>The game engine's register update (gameEngine.ts)\<close>

text \<open>
  \<open>GameEngine.executeInstructionOnRegisters\<close>, on the game's register list. Unlike the
  simulation engine it only asks for a destination, and it rounds a quotient down.
\<close>

definition optRegister :: "operand option \<Rightarrow> string \<Rightarrow> string" where
  "optRegister opd dflt = (case opd of Some (Name s) \<Rightarrow> s | _ \<Rightarrow> dflt)"

definition optValue :: "operand option \<Rightarrow> register \<Rightarrow> number" where
  "optValue opd reg = (case opd of Some (Num n) \<Rightarrow> n | _ \<Rightarrow> r_value reg)"

definition gameResult :: "opcode \<Rightarrow> number \<Rightarrow> number \<Rightarrow> number \<Rightarrow> number" where
  "gameResult opc old val1 val2 =
     (case opc of
        ADD \<Rightarrow> val1 + val2
      | SUB \<Rightarrow> val1 - val2
      | MUL \<Rightarrow> val1 * val2
      | DIV \<Rightarrow> (if val2 \<noteq> 0 then of_int \<lfloor>val1 / val2\<rfloor> else 0)
      | _ \<Rightarrow> old)"

definition gameSetLiteral :: "instruction \<Rightarrow> register list \<Rightarrow> register list" where
  "gameSetLiteral ins rs =
     (case (i_operand1 ins, i_destination ins) of
        (Some (Num operand1), Some destination) \<Rightarrow>
          if destination = [] then rs
          else (case findIndex (\<lambda>r. r_name r = destination) rs of
                  None \<Rightarrow> rs
                | Some ri \<Rightarrow> setRegister ri operand1 rs)
      | _ \<Rightarrow> rs)"

definition executeInstructionOnRegisters :: "instruction \<Rightarrow> register list \<Rightarrow> register list" where
  "executeInstructionOnRegisters ins rs =
     (if i_opcode ins = LOAD \<or> i_opcode ins = MOV then gameSetLiteral ins rs
      else if i_opcode ins \<in> {ADD, SUB, MUL, DIV} then
        (case i_destination ins of
           None \<Rightarrow> rs
         | Some destination \<Rightarrow>
             if destination = [] then rs
             else
               (case (findIndex (\<lambda>r. r_name r = optRegister (i_operand1 ins) ''R1'') rs,
                      findIndex (\<lambda>r. r_name r = optRegister (i_operand2 ins) ''R2'') rs,
                      findIndex (\<lambda>r. r_name r = destination) rs) of
                  (Some i1, Some i2, Some di) \<Rightarrow>
                    setRegister di
                      (gameResult (i_opcode ins) (r_value (rs ! di))
                         (optValue (i_operand1 ins) (rs ! i1))
                         (optValue (i_operand2 ins) (rs ! i2))) rs
                | _ \<Rightarrow> rs))
      else rs)"

section \<open>Observations and invariants\<close>

text \<open>The engine left by a call, and the value the call returned; \<open>None\<close> if it raised.\<close>

definition engineAfter :: "error + ('a \<times> engine) \<Rightarrow> engine option" where
  "engineAfter r = (case r of Inl _ \<Rightarrow> None | Inr p \<Rightarrow> Some (snd p))"

definition returned :: "error + ('a \<times> engine) \<Rightarrow> 'a option" where
  "returned r = (case r of Inl _ \<Rightarrow> None | Inr p \<Rightarrow> Some (fst p))"

text \<open>
  What \<open>registers.find(r => r.name === nm)?.value\<close> and
  \<open>memory.find(m => m.address === a)\<close> give on an engine.
\<close>

definition registerValue :: "string \<Rightarrow> engine \<Rightarrow> number option" where
  "registerValue nm e =
     map_option (\<lambda>i. r_value (registers e ! i)) (findIndex (\<lambda>r. r_name r = nm) (registers e))"

definition memoryCell :: "js_number \<Rightarrow> engine \<Rightarrow> memory_location option" where
  "memoryCell a e =
     map_option (\<lambda>i. memory e ! i) (findIndex (\<lambda>m. strictEq (m_address m) a) (memory e))"

text \<open>The level at which a cache access hit, if it hit.\<close>

definition hitLevel :: "error + ((cache_level \<times> bool) \<times> engine) \<Rightarrow> cache_level option" where
  "hitLevel r = (case r of Inl _ \<Rightarrow> None
                 | Inr p \<Rightarrow> if snd (fst p) then Some (fst (fst p)) else None)"

text \<open>
  The states the engine can be in: after \<open>reset()\<close>, and from there by \<open>step()\<close>,
  \<open>setExample\<close>, the two cache operations and the two timer callbacks, in any order.
  The rule \<open>r_program\<close> over-approximates the programs: \<open>setExample\<close> installs one
  of the generated instruction lists, the rule lets the pending list be any list.
\<close>

inductive reachable :: "engine \<Rightarrow> bool" where
  r_reset: "reachable (reset e)"
| r_step: "reachable e \<Longrightarrow> step h e = Inr (b, e') \<Longrightarrow> reachable e'"
| r_setExample: "reachable e \<Longrightarrow> reachable (setExample x e)"
| r_checkCache: "reachable e \<Longrightarrow> checkCache a e = Inr (r, e') \<Longrightarrow> reachable e'"
| r_updateCache: "reachable e \<Longrightarrow> updateCache a v e = Inr (r, e') \<Longrightarrow> reachable e'"
| r_clearCacheActive: "reachable e \<Longrightarrow> reachable (clearCacheActive e)"
| r_expireTransfer: "reachable e \<Longrightarrow> reachable (expireTransfer tid e)"
| r_program: "reachable e \<Longrightarrow> reachable (e\<lparr>currentInstructions := prog\<rparr>)"






text \<open>A cache of a level other than L1 has no valid line and has counted nothing.\<close>

definition unusedLevel :: "cache_state \<Rightarrow> bool" where
  "unusedLevel c = (list_all (\<lambda>l. \<not> l_valid l) (c_lines c) \<and> c_hits c = 0 \<and> c_misses c = 0)"

definition upperLevelsUnused :: "engine \<Rightarrow> bool" where
  "upperLevelsUnused e = list_all (\<lambda>c. c_level c = L1 \<or> unusedLevel c) (cache e)"

text \<open>Every cache has at least one line, so that no cache operation raises.\<close>

definition linesPresent :: "engine \<Rightarrow> bool" where
  "linesPresent e = list_all (\<lambda>c. c_lines c \<noteq> []) (cache e)"

text \<open>
  The engine with the host readings erased from its bus log: every other field, and
  every other field of each transfer, is kept.
\<close>

definition sansReadings :: "engine \<Rightarrow> engine" where
  "sansReadings e =
     e\<lparr>busTransfers := map (\<lambda>t. t\<lparr>b_id := (0, 0), b_timestamp := 0\<rparr>) (busTransfers e)\<rparr>"

definition sansReadingsResult :: "error + ('a \<times> engine) \<Rightarrow> error + ('a \<times> engine)" where
  "sansReadingsResult r = map_sum id (map_prod id sansReadings) r"

text \<open>The calculator example \<open>a opn b\<close>, loaded into a freshly reset engine.\<close>

definition calculator :: "number \<Rightarrow> number \<Rightarrow> calc_operation \<Rightarrow> engine" where
  "calculator a b opn =
     setExample (CalculatorData \<lparr>input1 = a, input2 = b, operation = opn, result = None,
                                 steps = []\<rparr>) (reset createInitialState)"

text \<open>A host whose every reading is 0, and an ADD whose first operand is the literal 0.\<close>

definition stillHost :: host where
  "stillHost = (\<lambda>_. \<lparr>now_id = 0, random_id = 0, now_stamp = 0\<rparr>)"

definition zeroAdd :: instruction where
  "zeroAdd = \<lparr>i_id = ''add0'', i_opcode = ADD, i_operand1 = Some (Num 0),
     i_operand2 = Some (Name ''R2''), i_destination = Some ''R3'', i_address = None\<rparr>"

definition opcodeOf :: "calc_operation \<Rightarrow> opcode" where
  "opcodeOf opn = (case opn of Plus \<Rightarrow> ADD | Minus \<Rightarrow> SUB | Times \<Rightarrow> MUL | Divide \<Rightarrow> DIV)"

text \<open>
  The game's register bank holding \<open>a\<close> and \<open>b\<close>, and the division of R1 by R2
  into R3.
\<close>

definition gameRegisters :: "number \<Rightarrow> number \<Rightarrow> register list" where
  "gameRegisters a b =
     [\<lparr>r_name = ''R1'', r_value = a, r_active = False, r_description = ''Register 1''\<rparr>,
      \<lparr>r_name = ''R2'', r_value = b, r_active = False, r_description = ''Register 2''\<rparr>,
      \<lparr>r_name = ''R3'', r_value = 0, r_active = False,
       r_description = ''Register 3 (Accumulator)''\<rparr>]"

definition divideR1byR2 :: instruction where
  "divideR1byR2 = \<lparr>i_id = ''compute'', i_opcode = DIV, i_operand1 = Some (Name ''R1''),
     i_operand2 = Some (Name ''R2''), i_destination = Some ''R3'', i_address = None\<rparr>"

text \<open>
  A freshly reset engine whose pending instruction list is \<open>prog\<close>, the cursor at
  instruction 0 and phase 0.
\<close>

definition withProgram :: "instruction list \<Rightarrow> engine" where
  "withProgram prog = (reset createInitialState)\<lparr>currentInstructions := prog\<rparr>"

text \<open>STORE R1 to address 5, and LOAD from address 5 into R2 with the literal 7.\<close>

definition storeR1at5 :: instruction where
  "storeR1at5 = \<lparr>i_id = ''store'', i_opcode = STORE, i_operand1 = None, i_operand2 = None,
     i_destination = Some ''R1'', i_address = Some (Finite 5)\<rparr>"

definition loadR2from5 :: instruction where
  "loadR2from5 = \<lparr>i_id = ''load'', i_opcode = LOAD, i_operand1 = Some (Num 7),
     i_operand2 = None, i_destination = Some ''R2'', i_address = Some (Finite 5)\<rparr>"

definition stillHosts :: "nat \<Rightarrow> host" where
  "stillHosts = (\<lambda>_. stillHost)"

text \<open>A cache access made on the engine that an earlier call left.\<close>

definition thenCheckCache ::
  "js_number \<Rightarrow> error + ('a \<times> engine) \<Rightarrow> error + ((cache_level \<times> bool) \<times> engine)" where
  "thenCheckCache a r = (case r of Inl err \<Rightarrow> Inl err | Inr p \<Rightarrow> checkCache a (snd p))"

definition thenUpdateCache ::
  "js_number \<Rightarrow> number \<Rightarrow> error + ('a \<times> engine) \<Rightarrow>
     error + ((cache_level \<times> bool) \<times> engine)" where
  "thenUpdateCache a v r = (case r of Inl err \<Rightarrow> Inl err | Inr p \<Rightarrow> updateCache a v (snd p))"

text \<open>The valid flag and the address of each line of the first cache (L1) after a call.\<close>

definition l1Lines :: "error + ('a \<times> engine) \<Rightarrow> (bool \<times> js_number) list option" where
  "l1Lines r =
     map_option (\<lambda>e. map (\<lambda>l. (l_valid l, l_address l)) (c_lines (hd (cache e))))
       (engineAfter r)"

text \<open>The engine after \<open>reset()\<close> and a read of address 5 through the cache.\<close>

definition afterRead5 :: engine where
  "afterRead5 = (case checkCache (Finite 5) (reset createInitialState) of
                   Inl _ \<Rightarrow> reset createInitialState | Inr p \<Rightarrow> snd p)"

text \<open>The cursor of the engine: where it is in which program.\<close>

definition cursor :: "engine \<Rightarrow> nat \<times> instruction list \<times> nat" where
  "cursor e = (instructionIndex e, currentInstructions e, phaseIndex e)"

text \<open>A host whose clock reads 1 and whose random number is 1/2 at every call.\<close>

definition laterHosts :: "nat \<Rightarrow> host" where
  "laterHosts = (\<lambda>_ _. \<lparr>now_id = 1, random_id = 1 / 2, now_stamp = 1\<rparr>)"

text \<open>The example data of the calculator example 5 + 3.\<close>

definition fivePlusThree :: calculator_example where
  "fivePlusThree = \<lparr>input1 = 5, input2 = 3, operation = Plus, result = None, steps = []\<rparr>"

section \<open>Facts about the helpers\<close>

lemma findIndex_None_iff: "findIndex P xs = None \<longleftrightarrow> (\<forall>x\<in>set xs. \<not> P x)"
  by (induction xs) auto

lemma findIndex_Some: "findIndex P xs = Some i \<Longrightarrow> i < length xs \<and> P (xs ! i)"
  by (induction xs arbitrary: i) (auto split: if_splits)

lemma findIndex_map: "findIndex P (map f xs) = findIndex (\<lambda>x. P (f x)) xs"
  by (induction xs) auto

lemma run_unfold:
  "0 < n \<Longrightarrow> run hs n e =
     (case step (hs 0) e of
        Inl err \<Rightarrow> Inl err
      | Inr (b, e') \<Rightarrow>
          (case run (\<lambda>k. hs (Suc k)) (n - 1) e' of
             Inl err \<Rightarrow> Inl err
           | Inr (bs, e'') \<Rightarrow> Inr (b # bs, e'')))"
  by (cases n) (simp_all cong: sum.case_cong prod.case_cong)

lemma executeExecute_LOAD:
  "i_opcode ins = LOAD \<Longrightarrow> executeExecute h ins st e = executeLOAD h ins st e"
  by (simp add: executeExecute_def)

lemma executeExecute_STORE:
  "i_opcode ins = STORE \<Longrightarrow> executeExecute h ins st e = executeSTORE h ins st e"
  by (simp add: executeExecute_def)

lemma executeExecute_ALU:
  "i_opcode ins \<in> {ADD, SUB, MUL, DIV} \<Longrightarrow> executeExecute h ins st e = executeALU h ins st e"
  by (auto simp: executeExecute_def)

lemmas phase_defs = step_def advance_def nthOpt_def phases_def executeFetch_def executeDecode_def
  executeStore_def addBusTransfer_def setRegister_def activate_def pushRegisterChange_def
  operandRegister_def operandValue_def

section \<open>Arithmetic with a literal zero operand\<close>

lemma executeALU_zero:
  assumes "i_operand1 ins = Some (Num 0) \<or> i_operand2 ins = Some (Num 0)"
  shows "executeALU h ins st e = Inr (st, e)"
  using assms by (auto simp: executeALU_def)

text \<open>
  Claim C10. An ADD, SUB, MUL or DIV whose first or second operand is the numeric literal
  0 fails the truthiness test \<open>operand1 && operand2 && destination\<close>: its EXECUTE phase
  returns the engine and the history record as they were, so \<open>step()\<close> changes no
  register, memory cell, cache line or bus record, and the record it appends to the
  history has no register delta. Only the clock, the phase and the cursor move.
\<close>

theorem alu_zero_literal_is_noop:
  assumes "i_opcode ins \<in> {ADD, SUB, MUL, DIV}"
    and "i_operand1 ins = Some (Num 0) \<or> i_operand2 ins = Some (Num 0)"
    and "phaseIndex e = 2"
    and "instructionIndex e < length (currentInstructions e)"
    and "currentInstructions e ! instructionIndex e = ins"
  shows "executeExecute h ins st e = Inr (st, e) \<and>
         step h e = Inr (True,
           e\<lparr>currentPhase := Some EXECUTE, clockCycle := clockCycle e + 1,
             history := history e @
               [\<lparr>s_cycle = clockCycle e + 1, s_phase = Some EXECUTE, s_instruction = Some ins,
                 s_registerChanges = [], s_memoryChanges = []\<rparr>],
             phaseIndex := 3\<rparr>)"
proof -
  have ex: "\<And>st' e'. executeExecute h ins st' e' = Inr (st', e')"
    using assms(1,2) by (simp add: executeExecute_ALU executeALU_zero)
  have "currentInstructions e \<noteq> []"
    using assms(4) by auto
  then show ?thesis
    using assms(3-5) by (simp add: ex step_def nthOpt_def phases_def advance_def Let_def)
qed

theorem alu_zero_literal_is_noop_witness:
  "i_opcode zeroAdd \<in> {ADD, SUB, MUL, DIV} \<and>
   (i_operand1 zeroAdd = Some (Num 0) \<or> i_operand2 zeroAdd = Some (Num 0)) \<and>
   phaseIndex (createInitialState\<lparr>currentInstructions := [zeroAdd], phaseIndex := 2\<rparr>) = 2 \<and>
   map_option registers (engineAfter
      (step stillHost (createInitialState\<lparr>currentInstructions := [zeroAdd], phaseIndex := 2\<rparr>)))
     = Some (registers createInitialState) \<and>
   map_option (\<lambda>e. map s_registerChanges (history e)) (engineAfter
      (step stillHost (createInitialState\<lparr>currentInstructions := [zeroAdd], phaseIndex := 2\<rparr>)))
     = Some [[]]"
  using alu_zero_literal_is_noop [of zeroAdd
      "createInitialState\<lparr>currentInstructions := [zeroAdd], phaseIndex := 2\<rparr>" stillHost]
  by (simp add: zeroAdd_def createInitialState_def engineAfter_def)

section \<open>The calculator run\<close>

lemma initialMemory_no_256:
  "findIndex (\<lambda>m. strictEq (m_address m) (Finite 256)) initialMemory = None"
  by (auto simp: findIndex_None_iff initialMemory_def)

lemma calculator_run_gen:
  assumes "registers e =
      [\<lparr>r_name = ''R1'', r_value = v1, r_active = a1, r_description = d1\<rparr>,
       \<lparr>r_name = ''R2'', r_value = v2, r_active = a2, r_description = d2\<rparr>,
       \<lparr>r_name = ''R3'', r_value = v3, r_active = a3, r_description = d3\<rparr>,
       \<lparr>r_name = ''PC'', r_value = v4, r_active = a4, r_description = d4\<rparr>,
       \<lparr>r_name = ''IR'', r_value = v5, r_active = a5, r_description = d5\<rparr>]"
    and "currentInstructions e =
      [\<lparr>i_id = ''load1'', i_opcode = LOAD, i_operand1 = Some (Num a),
        i_operand2 = None, i_destination = Some ''R1'', i_address = None\<rparr>,
       \<lparr>i_id = ''load2'', i_opcode = LOAD, i_operand1 = Some (Num b),
        i_operand2 = None, i_destination = Some ''R2'', i_address = None\<rparr>,
       \<lparr>i_id = ''compute'', i_opcode = opc,
        i_operand1 = Some (Name ''R1''), i_operand2 = Some (Name ''R2''),
        i_destination = Some ''R3'', i_address = None\<rparr>,
       \<lparr>i_id = ''store'', i_opcode = STORE, i_operand1 = None, i_operand2 = None,
        i_destination = Some ''R3'', i_address = Some (Finite 256)\<rparr>]"
    and "opc \<in> {ADD, SUB, MUL, DIV}"
    and "instructionIndex e = 0" and "phaseIndex e = 0"
    and "findIndex (\<lambda>m. strictEq (m_address m) (Finite 256)) (memory e) = None"
  shows "\<exists>e'. run hs 16 e =
           Inr ([True, True, True, True, True, True, True, True,
                 True, True, True, True, True, True, True, False], e') \<and>
         map r_name (registers e') = [''R1'', ''R2'', ''R3'', ''PC'', ''IR''] \<and>
         map r_value (registers e') =
           [a, b, aluResult opc a b, of_nat (programCounter e + 4), v5] \<and>
         memory e' = map (\<lambda>mem. mem\<lparr>m_active := False\<rparr>) (memory e) \<and>
         concat (map s_memoryChanges (history e')) =
           concat (map s_memoryChanges (history e)) \<and>
         cache e' = cache e \<and>
         map b_timestamp (busTransfers e') =
           map b_timestamp (busTransfers e) @
           map now_stamp [hs 0 0, hs 0 1, hs 2 0, hs 4 0, hs 4 1, hs 6 0, hs 8 0, hs 8 1,
                          hs 10 0, hs 10 1, hs 10 2, hs 10 3, hs 12 0, hs 12 1]"
  using assms
  by (simp add: run_unfold phase_defs executeExecute_LOAD executeExecute_STORE executeExecute_ALU
      executeLOAD_def executeSTORE_def executeALU_def Let_def findIndex_map o_def
      numeral_2_eq_2 [symmetric])

lemma calculator_run:
  "\<exists>e'. run hs 16 (calculator a b opn) =
           Inr ([True, True, True, True, True, True, True, True,
                 True, True, True, True, True, True, True, False], e') \<and>
         map r_name (registers e') = [''R1'', ''R2'', ''R3'', ''PC'', ''IR''] \<and>
         map r_value (registers e') = [a, b, aluResult (opcodeOf opn) a b, 4, 0] \<and>
         memory e' = map (\<lambda>mem. mem\<lparr>m_active := False\<rparr>)
                       (map (\<lambda>mem. mem\<lparr>m_used := False, m_active := False\<rparr>) initialMemory) \<and>
         concat (map s_memoryChanges (history e')) = [] \<and>
         cache e' = cache createInitialState \<and>
         map b_timestamp (busTransfers e') =
           map now_stamp [hs 0 0, hs 0 1, hs 2 0, hs 4 0, hs 4 1, hs 6 0, hs 8 0, hs 8 1,
                          hs 10 0, hs 10 1, hs 10 2, hs 10 3, hs 12 0, hs 12 1]"
proof -
  let ?e = "calculator a b opn"
  have opc: "opcodeOf opn \<in> {ADD, SUB, MUL, DIV}"
    by (cases opn) (simp_all add: opcodeOf_def)
  have mem: "findIndex (\<lambda>m. strictEq (m_address m) (Finite 256)) (memory ?e) = None"
    by (simp add: calculator_def setExample_def reset_def createInitialState_def
        findIndex_map initialMemory_no_256)
  have prog: "currentInstructions ?e =
      [\<lparr>i_id = ''load1'', i_opcode = LOAD, i_operand1 = Some (Num a),
        i_operand2 = None, i_destination = Some ''R1'', i_address = None\<rparr>,
       \<lparr>i_id = ''load2'', i_opcode = LOAD, i_operand1 = Some (Num b),
        i_operand2 = None, i_destination = Some ''R2'', i_address = None\<rparr>,
       \<lparr>i_id = ''compute'', i_opcode = opcodeOf opn,
        i_operand1 = Some (Name ''R1''), i_operand2 = Some (Name ''R2''),
        i_destination = Some ''R3'', i_address = None\<rparr>,
       \<lparr>i_id = ''store'', i_opcode = STORE, i_operand1 = None, i_operand2 = None,
        i_destination = Some ''R3'', i_address = Some (Finite 256)\<rparr>]"
    by (simp add: calculator_def setExample_def generateCalculatorInstructions_def opcodeOf_def)
  have regs: "registers ?e =
      [\<lparr>r_name = ''R1'', r_value = 0, r_active = False,
        r_description = ''General purpose register 1''\<rparr>,
       \<lparr>r_name = ''R2'', r_value = 0, r_active = False,
        r_description = ''General purpose register 2''\<rparr>,
       \<lparr>r_name = ''R3'', r_value = 0, r_active = False,
        r_description = ''General purpose register 3 (accumulator)''\<rparr>,
       \<lparr>r_name = ''PC'', r_value = 0, r_active = False,
        r_description = ''Program counter''\<rparr>,
       \<lparr>r_name = ''IR'', r_value = 0, r_active = False,
        r_description = ''Instruction register''\<rparr>]"
    by (simp add: calculator_def setExample_def reset_def createInitialState_def)
  have cur: "instructionIndex ?e = 0" "phaseIndex ?e = 0" "programCounter ?e = 0"
    "history ?e = []" "cache ?e = cache createInitialState" "busTransfers ?e = []"
    "memory ?e = map (\<lambda>mem. mem\<lparr>m_used := False, m_active := False\<rparr>) initialMemory"
    by (simp_all add: calculator_def setExample_def reset_def createInitialState_def)
  from calculator_run_gen [OF regs prog opc cur(1,2) mem, of hs]
  show ?thesis by (simp add: cur)
qed

lemma registerValue_by_name:
  assumes "map r_name (registers e) = ns" and "map r_value (registers e) = vs"
  shows "registerValue nm e = map_option (\<lambda>i. vs ! i) (findIndex (\<lambda>n. n = nm) ns)"
proof -
  have f: "findIndex (\<lambda>r. r_name r = nm) (registers e) = findIndex (\<lambda>n. n = nm) ns"
    unfolding assms(1) [symmetric] by (simp add: findIndex_map)
  show ?thesis
  proof (cases "findIndex (\<lambda>n. n = nm) ns")
    case None
    then show ?thesis by (simp add: registerValue_def f)
  next
    case (Some i)
    then have "i < length (registers e)"
      using findIndex_Some [of "\<lambda>r. r_name r = nm" "registers e" i] f by simp
    then show ?thesis
      using Some assms(2) by (auto simp: registerValue_def f)
  qed
qed

lemma calculator_run_obs:
  "returned (run hs 16 (calculator a b opn)) =
     Some [True, True, True, True, True, True, True, True,
           True, True, True, True, True, True, True, False]"
  "map_option (registerValue nm) (engineAfter (run hs 16 (calculator a b opn))) =
     Some (map_option (\<lambda>i. [a, b, aluResult (opcodeOf opn) a b, 4, 0] ! i)
             (findIndex (\<lambda>n. n = nm) [''R1'', ''R2'', ''R3'', ''PC'', ''IR'']))"
  "map_option memory (engineAfter (run hs 16 (calculator a b opn))) =
     Some (map (\<lambda>mem. mem\<lparr>m_active := False\<rparr>)
            (map (\<lambda>mem. mem\<lparr>m_used := False, m_active := False\<rparr>) initialMemory))"
  "map_option (\<lambda>e. concat (map s_memoryChanges (history e)))
     (engineAfter (run hs 16 (calculator a b opn))) = Some []"
  "map_option (map b_timestamp \<circ> busTransfers) (engineAfter (run hs 16 (calculator a b opn))) =
     Some (map now_stamp [hs 0 0, hs 0 1, hs 2 0, hs 4 0, hs 4 1, hs 6 0, hs 8 0, hs 8 1,
                          hs 10 0, hs 10 1, hs 10 2, hs 10 3, hs 12 0, hs 12 1])"
proof -
  from calculator_run [of hs a b opn]
  obtain e' where all: "run hs 16 (calculator a b opn) =
           Inr ([True, True, True, True, True, True, True, True,
                 True, True, True, True, True, True, True, False], e') \<and>
         map r_name (registers e') = [''R1'', ''R2'', ''R3'', ''PC'', ''IR''] \<and>
         map r_value (registers e') = [a, b, aluResult (opcodeOf opn) a b, 4, 0] \<and>
         memory e' = map (\<lambda>mem. mem\<lparr>m_active := False\<rparr>)
                       (map (\<lambda>mem. mem\<lparr>m_used := False, m_active := False\<rparr>) initialMemory) \<and>
         concat (map s_memoryChanges (history e')) = [] \<and>
         cache e' = cache createInitialState \<and>
         map b_timestamp (busTransfers e') =
           map now_stamp [hs 0 0, hs 0 1, hs 2 0, hs 4 0, hs 4 1, hs 6 0, hs 8 0, hs 8 1,
                          hs 10 0, hs 10 1, hs 10 2, hs 10 3, hs 12 0, hs 12 1]"
    by - (erule exE, rule that, assumption)
  have r: "run hs 16 (calculator a b opn) =
           Inr ([True, True, True, True, True, True, True, True,
                 True, True, True, True, True, True, True, False], e')"
    using all by (rule conjunct1)
  have ns: "map r_name (registers e') = [''R1'', ''R2'', ''R3'', ''PC'', ''IR'']"
    using all by simp
  have vs: "map r_value (registers e') = [a, b, aluResult (opcodeOf opn) a b, 4, 0]"
    using all by simp
  show "returned (run hs 16 (calculator a b opn)) =
     Some [True, True, True, True, True, True, True, True,
           True, True, True, True, True, True, True, False]"
    by (simp add: r returned_def)
  show "map_option (registerValue nm) (engineAfter (run hs 16 (calculator a b opn))) =
     Some (map_option (\<lambda>i. [a, b, aluResult (opcodeOf opn) a b, 4, 0] ! i)
             (findIndex (\<lambda>n. n = nm) [''R1'', ''R2'', ''R3'', ''PC'', ''IR'']))"
    by (simp only: r engineAfter_def sum.case snd_conv option.map registerValue_by_name [OF ns vs])
  show "map_option memory (engineAfter (run hs 16 (calculator a b opn))) =
     Some (map (\<lambda>mem. mem\<lparr>m_active := False\<rparr>)
            (map (\<lambda>mem. mem\<lparr>m_used := False, m_active := False\<rparr>) initialMemory))"
    using all by (simp add: r engineAfter_def)
  show "map_option (\<lambda>e. concat (map s_memoryChanges (history e)))
     (engineAfter (run hs 16 (calculator a b opn))) = Some []"
    using all by (simp add: r engineAfter_def)
  show "map_option (map b_timestamp \<circ> busTransfers)
     (engineAfter (run hs 16 (calculator a b opn))) =
     Some (map now_stamp [hs 0 0, hs 0 1, hs 2 0, hs 4 0, hs 4 1, hs 6 0, hs 8 0, hs 8 1,
                          hs 10 0, hs 10 1, hs 10 2, hs 10 3, hs 12 0, hs 12 1])"
    using all by (simp add: r engineAfter_def)
qed

text \<open>
  Claim C1, on the code. The calculator program for 5 + 3 is loaded into a freshly reset
  engine and \<open>step()\<close> is called 16 times. Register R3 then holds 8, as the claim says.
  The memory does not: it has the 256 cells of addresses 0 to 255 and none of address
  0x100, so the STORE finds no cell and is skipped. Every cell still holds 0 and the
  history records no memory delta.
\<close>

theorem calculator_5_plus_3_leaves_memory_untouched:
  "map_option (registerValue ''R3'') (engineAfter (run hs 16 (calculator 5 3 Plus))) = Some (Some 8) \<and>
   map_option (memoryCell (Finite 256)) (engineAfter (run hs 16 (calculator 5 3 Plus))) = Some None \<and>
   map_option (\<lambda>e. map m_value (memory e)) (engineAfter (run hs 16 (calculator 5 3 Plus)))
     = Some (replicate 256 0) \<and>
   map_option (\<lambda>e. concat (map s_memoryChanges (history e)))
     (engineAfter (run hs 16 (calculator 5 3 Plus))) = Some []"
proof -
  let ?r = "run hs 16 (calculator 5 3 Plus)"
  have r3: "map_option (registerValue ''R3'') (engineAfter ?r) = Some (Some 8)"
    by (simp add: calculator_run_obs(2) aluResult_def opcodeOf_def)
  from calculator_run_obs(3) [of hs 5 3 Plus]
  obtain e' where e': "engineAfter ?r = Some e'"
    and m: "memory e' = map (\<lambda>mem. mem\<lparr>m_active := False\<rparr>)
            (map (\<lambda>mem. mem\<lparr>m_used := False, m_active := False\<rparr>) initialMemory)"
    by (cases "engineAfter ?r") simp_all
  have cell: "map_option (memoryCell (Finite 256)) (engineAfter ?r) = Some None"
    by (simp add: e' memoryCell_def m findIndex_map initialMemory_no_256)
  have vals: "map_option (\<lambda>e. map m_value (memory e)) (engineAfter ?r) = Some (replicate 256 0)"
    by (simp add: e' m initialMemory_def o_def map_replicate_const)
  show ?thesis
    using r3 cell vals calculator_run_obs(4) [of hs 5 3 Plus] by (intro conjI)
qed

text \<open>
  Claim C4, on the code. The calculator program for 10 / 3, run for its 16 steps, leaves
  the quotient 10/3 in R3, not its floor 3: the simulation engine divides with \<open>/\<close>
  and does not round. The game engine's \<open>executeInstructionOnRegisters\<close>, on the same
  operands, applies \<open>Math.floor\<close> and leaves 3.
\<close>

theorem simulation_div_is_not_floored:
  "map_option (registerValue ''R1'') (engineAfter (run hs 16 (calculator 10 3 Divide))) = Some (Some 10) \<and>
   map_option (registerValue ''R2'') (engineAfter (run hs 16 (calculator 10 3 Divide))) = Some (Some 3) \<and>
   map_option (registerValue ''R3'') (engineAfter (run hs 16 (calculator 10 3 Divide)))
      = Some (Some (10 / 3)) \<and>
   map_option (registerValue ''R3'') (engineAfter (run hs 16 (calculator 10 3 Divide)))
      \<noteq> Some (Some 3) \<and>
   map r_value (executeInstructionOnRegisters divideR1byR2 (gameRegisters 10 3)) = [10, 3, 3]"
proof -
  have fl: "\<lfloor>10 / 3 :: rat\<rfloor> = 3"
    by (simp add: floor_eq_iff)
  have g: "map r_value (executeInstructionOnRegisters divideR1byR2 (gameRegisters 10 3)) = [10, 3, 3]"
    by (simp add: fl executeInstructionOnRegisters_def divideR1byR2_def gameRegisters_def
        optRegister_def optValue_def gameResult_def setRegister_def)
  show ?thesis
    by (simp add: calculator_run_obs(2) aluResult_def opcodeOf_def g)
qed

section \<open>The fresh memory and the fresh caches\<close>

lemma length_initialMemory: "length initialMemory = 256"
  by (simp add: initialMemory_def)

lemma initialMemory_nth:
  "k < 256 \<Longrightarrow> initialMemory ! k =
     \<lparr>m_address = Finite (of_nat k), m_value = 0, m_active = False, m_used = False\<rparr>"
  by (simp add: initialMemory_def)

lemma findIndex_append:
  "findIndex P (xs @ ys) =
     (case findIndex P xs of Some i \<Rightarrow> Some i
      | None \<Rightarrow> map_option (\<lambda>i. length xs + i) (findIndex P ys))"
proof (induction xs)
  case Nil
  show ?case by (cases "findIndex P ys") simp_all
next
  case (Cons x xs)
  then show ?case
    by (cases "findIndex P xs"; cases "findIndex P ys") auto
qed

lemma initialMemory_find:
  assumes "k < 256"
  shows "findIndex (\<lambda>m. strictEq (m_address m) (Finite (of_nat k))) initialMemory = Some k"
proof -
  have "\<And>n. k < n \<Longrightarrow> findIndex (\<lambda>i. (of_nat i :: rat) = of_nat k) [0..<n] = Some k"
  proof -
    fix n show "k < n \<Longrightarrow> findIndex (\<lambda>i. (of_nat i :: rat) = of_nat k) [0..<n] = Some k"
    proof (induction n)
      case 0
      then show ?case by simp
    next
      case (Suc n)
      show ?case
      proof (cases "k < n")
        case True
        then show ?thesis using Suc.IH by (simp add: findIndex_append)
      next
        case False
        then have kn: "k = n" using Suc.prems by simp
        have "findIndex (\<lambda>i. (of_nat i :: rat) = of_nat n) [0..<n] = None"
          by (auto simp: findIndex_None_iff)
        then show ?thesis by (simp add: findIndex_append kn)
      qed
    qed
  qed
  then show ?thesis
    using assms by (simp add: initialMemory_def findIndex_map)
qed

lemma findIndex_update_same:
  "findIndex P xs = Some i \<Longrightarrow> P y \<Longrightarrow> findIndex P (xs[i := y]) = Some i"
  by (induction xs arbitrary: i) (auto split: if_splits nat.splits)

lemma findIndex_replicate:
  "findIndex P (replicate n x) = (if 0 < n \<and> P x then Some 0 else None)"
  by (cases n) (auto simp: findIndex_None_iff)

lemma initialMemory_find_5:
  "findIndex (\<lambda>m. strictEq (m_address m) (Finite 5)) initialMemory = Some 5"
  using initialMemory_find [of 5] by simp

lemma replicate_8: "replicate 8 x = [x, x, x, x, x, x, x, x]"
  by (simp add: numeral_eq_Suc)

lemmas cache_defs = checkCache_def updateCache_def clearActive_def freshCache_def freshLine_def
  holds_def readVictim_def writeVictim_def older_def levelName_def findIndex_replicate replicate_8

section \<open>A store followed by a load of the same address\<close>

text \<open>
  Claim C3, on the code. A fresh engine runs STORE R1 to address 5 and then LOAD from
  address 5 into R2, the LOAD carrying the literal 7. R1 holds 0, so the STORE writes 0
  to cell 5 (the history records the delta, the cell is marked used). The LOAD then
  leaves 7 in R2, not the 0 that was stored: \<open>memLoc?.value || operand1\<close> takes the
  stored 0 for a missing value and falls back to the literal.
\<close>

theorem store_zero_then_load_returns_the_literal:
  "map_option (registerValue ''R1'')
     (engineAfter (run hs 8 (withProgram [storeR1at5, loadR2from5]))) = Some (Some 0) \<and>
   map_option (\<lambda>e. concat (map s_memoryChanges (history e)))
     (engineAfter (run hs 8 (withProgram [storeR1at5, loadR2from5])))
       = Some [\<lparr>mc_address = Finite 5, mc_oldValue = 0, mc_newValue = 0\<rparr>] \<and>
   map_option (memoryCell (Finite 5))
     (engineAfter (run hs 8 (withProgram [storeR1at5, loadR2from5])))
       = Some (Some \<lparr>m_address = Finite 5, m_value = 0, m_active = False, m_used = True\<rparr>) \<and>
   map_option (registerValue ''R2'')
     (engineAfter (run hs 8 (withProgram [storeR1at5, loadR2from5]))) = Some (Some 7)"
  by (simp add: withProgram_def reset_def createInitialState_def storeR1at5_def loadR2from5_def
      run_unfold phase_defs executeExecute_LOAD executeExecute_STORE
      executeLOAD_def executeSTORE_def Let_def findIndex_map o_def cache_defs
      initialMemory_find_5 findIndex_update_same length_initialMemory initialMemory_nth
      engineAfter_def memoryCell_def memoryValue_def registerValue_def)

section \<open>The line a miss overwrites\<close>

text \<open>
  Claim C5, on the code. After one \<open>step()\<close> of the calculator program (clock cycle 1)
  a read of address 5 misses and fills line 0 of L1, stamped 1; the other seven lines are
  invalid, stamped 0. From that state a read miss of address 6 overwrites line 0, the
  only valid line, while a write miss of address 6 overwrites line 1: \<open>updateCache\<close>
  reduces over all the lines, valid or not, and an invalid line has the smaller stamp.
\<close>

theorem write_miss_evicts_another_line_than_read_miss:
  "l1Lines (thenCheckCache (Finite 5) (step h (calculator 5 3 Plus))) =
     Some [(True, Finite 5), (False, Finite 0), (False, Finite 0), (False, Finite 0),
           (False, Finite 0), (False, Finite 0), (False, Finite 0), (False, Finite 0)] \<and>
   l1Lines (thenCheckCache (Finite 6)
       (thenCheckCache (Finite 5) (step h (calculator 5 3 Plus)))) =
     Some [(True, Finite 6), (False, Finite 0), (False, Finite 0), (False, Finite 0),
           (False, Finite 0), (False, Finite 0), (False, Finite 0), (False, Finite 0)] \<and>
   l1Lines (thenUpdateCache (Finite 6) 9
       (thenCheckCache (Finite 5) (step h (calculator 5 3 Plus)))) =
     Some [(True, Finite 5), (True, Finite 6), (False, Finite 0), (False, Finite 0),
           (False, Finite 0), (False, Finite 0), (False, Finite 0), (False, Finite 0)]"
  by (simp add: calculator_def setExample_def reset_def createInitialState_def
      generateCalculatorInstructions_def phase_defs Let_def l1Lines_def engineAfter_def
      thenCheckCache_def thenUpdateCache_def cache_defs)

section \<open>Loading an example\<close>

text \<open>
  Claim C8, as amended. \<open>setExample\<close> resets the cursor to instruction 0 and phase 0,
  the program counter, the instruction register, the phase (IDLE), the cycle counter, the
  bus log and the history; it replaces the instruction list by the generated program
  when example data is given and keeps it otherwise. It leaves the registers and the
  cache unchanged, and the address and value of every memory cell; it clears the used
  and the active flag of every memory cell.
\<close>

theorem setExample_frame:
  "instructionIndex (setExample x e) = 0 \<and> phaseIndex (setExample x e) = 0 \<and>
   programCounter (setExample x e) = 0 \<and> instructionRegister (setExample x e) = None \<and>
   currentPhase (setExample x e) = Some IDLE \<and> clockCycle (setExample x e) = 0 \<and>
   busTransfers (setExample x e) = [] \<and> history (setExample x e) = [] \<and>
   currentExample (setExample x e) = exampleTypeOf x \<and>
   currentInstructions (setExample x e) =
     (case x of
        CalculatorData c \<Rightarrow> generateCalculatorInstructions (input1 c) (input2 c) (operation c)
      | TrafficLightData t \<Rightarrow> generateTrafficLightInstructions (currentState t) (sensorInput t)
      | NoData _ \<Rightarrow> currentInstructions e) \<and>
   registers (setExample x e) = registers e \<and> cache (setExample x e) = cache e \<and>
   map m_address (memory (setExample x e)) = map m_address (memory e) \<and>
   map m_value (memory (setExample x e)) = map m_value (memory e) \<and>
   map m_used (memory (setExample x e)) = replicate (length (memory e)) False \<and>
   map m_active (memory (setExample x e)) = replicate (length (memory e)) False"
  by (simp add: setExample_def o_def map_replicate_const)

lemma store_run:
  "map_option (memoryCell (Finite 5)) (engineAfter (run hs 3 (withProgram [storeR1at5]))) =
     Some (Some \<lparr>m_address = Finite 5, m_value = 0, m_active = True, m_used = True\<rparr>)"
  "map_option (\<lambda>e. memoryCell (Finite 5) (setExample x e)) (engineAfter (run hs 3 (withProgram [storeR1at5]))) =
     Some (Some \<lparr>m_address = Finite 5, m_value = 0, m_active = False, m_used = False\<rparr>)"
  by (simp_all add: withProgram_def reset_def createInitialState_def storeR1at5_def
      run_unfold phase_defs executeExecute_STORE setExample_def
      executeSTORE_def Let_def findIndex_map o_def cache_defs
      initialMemory_find_5 findIndex_update_same length_initialMemory initialMemory_nth
      engineAfter_def memoryCell_def)

text \<open>
  Claim C8 as stated fails. After the STORE of a fresh engine's R1 to address 5 has
  executed, cell 5 is used and active; loading the calculator example then clears both
  flags, so the memory is not what it was.
\<close>

theorem setExample_clears_used_flags:
  "map_option (memoryCell (Finite 5)) (engineAfter (run stillHosts 3 (withProgram [storeR1at5]))) =
     Some (Some \<lparr>m_address = Finite 5, m_value = 0, m_active = True, m_used = True\<rparr>) \<and>
   map_option (memoryCell (Finite 5) \<circ> setExample (CalculatorData fivePlusThree))
     (engineAfter (run stillHosts 3 (withProgram [storeR1at5]))) =
     Some (Some \<lparr>m_address = Finite 5, m_value = 0, m_active = False, m_used = False\<rparr>) \<and>
   map_option (memory \<circ> setExample (CalculatorData fivePlusThree))
     (engineAfter (run stillHosts 3 (withProgram [storeR1at5]))) \<noteq>
   map_option memory (engineAfter (run stillHosts 3 (withProgram [storeR1at5])))"
proof -
  let ?r = "engineAfter (run stillHosts 3 (withProgram [storeR1at5]))"
  let ?x = "CalculatorData fivePlusThree"
  have a: "map_option (memoryCell (Finite 5)) ?r =
     Some (Some \<lparr>m_address = Finite 5, m_value = 0, m_active = True, m_used = True\<rparr>)"
    by (rule store_run(1))
  have b: "map_option (memoryCell (Finite 5) \<circ> setExample ?x) ?r =
     Some (Some \<lparr>m_address = Finite 5, m_value = 0, m_active = False, m_used = False\<rparr>)"
    using store_run(2) [of ?x stillHosts] by (simp add: o_def)
  have c: "map_option (memory \<circ> setExample ?x) ?r \<noteq> map_option memory ?r"
  proof
    assume eq: "map_option (memory \<circ> setExample ?x) ?r = map_option memory ?r"
    obtain e where e: "?r = Some e"
      using a by (cases ?r) simp_all
    from eq e have "memory (setExample ?x e) = memory e"
      by simp
    then have "memoryCell (Finite 5) (setExample ?x e) = memoryCell (Finite 5) e"
      by (simp add: memoryCell_def)
    with a b e show False
      by simp
  qed
  show ?thesis
    using a b c by (intro conjI)
qed

section \<open>What a cache access does to the cache list\<close>

lemma list_all_update:
  "list_all P xs \<Longrightarrow> P y \<Longrightarrow> list_all P (xs[i := y])"
  by (induction xs arbitrary: i) (auto split: nat.splits)

lemma reduce_in_set:
  assumes "reduce f xs = Some r" and "\<And>x y. f x y = x \<or> f x y = y"
  shows "r \<in> set xs"
proof -
  have "\<And>x. foldl f x ys \<in> insert x (set ys)" for ys
  proof (induction ys)
    case Nil
    show ?case by simp
  next
    case (Cons y ys)
    show ?case
      using Cons [of "f x y"] assms(2) [of x y] by auto
  qed
  then show ?thesis
    using assms(1) by (cases xs) auto
qed

lemma older_choice: "older x y = x \<or> older x y = y"
  by (simp add: older_def)

lemma readVictim_bound: "readVictim ls = Some li \<Longrightarrow> li < length ls"
proof -
  assume a: "readVictim ls = Some li"
  let ?vs = "filter (\<lambda>p. l_valid (snd p)) (enumerate 0 ls)"
  show ?thesis
  proof (cases "0 < length ?vs")
    case True
    then obtain r where r: "reduce older ?vs = Some r" and li: "li = fst r"
      using a by (auto simp: readVictim_def Let_def)
    from reduce_in_set [OF r older_choice] have "r \<in> set (enumerate 0 ls)"
      by simp
    then have "fst r < length ls"
      by (auto simp: in_set_enumerate_eq)
    then show ?thesis
      by (simp add: li)
  next
    case False
    then show ?thesis
      using a by (auto simp: readVictim_def Let_def split: if_splits)
  qed
qed

lemma writeVictim_bound: "writeVictim ls = Some li \<Longrightarrow> li < length ls"
proof -
  assume a: "writeVictim ls = Some li"
  then obtain r where r: "reduce older (enumerate 0 ls) = Some r" and li: "li = fst r"
    by (auto simp: writeVictim_def)
  from reduce_in_set [OF r older_choice] have "fst r < length ls"
    by (auto simp: in_set_enumerate_eq)
  then show ?thesis
    by (simp add: li)
qed

lemma readVictim_None: "readVictim ls = None \<longleftrightarrow> ls = []"
  by (auto simp: readVictim_def Let_def filter_empty_conv neq_Nil_conv split: list.splits)

lemma writeVictim_None: "writeVictim ls = None \<longleftrightarrow> ls = []"
  by (cases ls) (auto simp: writeVictim_def enumerate_simps)

text \<open>The hit scans: where they hit, and what a miss means.\<close>

lemma readScan_Some:
  "readScan lvs a cyc cs = Some (lv, cs') \<Longrightarrow>
   \<exists>ci li. ci < length cs \<and> li < length (c_lines (cs ! ci)) \<and>
      holds a (c_lines (cs ! ci) ! li) \<and> lv = c_level (cs ! ci) \<and>
      cs' = cs[ci := (cs ! ci)\<lparr>c_hits := c_hits (cs ! ci) + 1,
                c_activeAddress := Some a, c_isHit := Some True,
                c_lines := (c_lines (cs ! ci))
                   [li := (c_lines (cs ! ci) ! li)\<lparr>l_lastAccessed := cyc\<rparr>]\<rparr>]"
proof (induction lvs)
  case Nil
  then show ?case by simp
next
  case (Cons l lvs)
  show ?case
  proof (cases "findIndex (\<lambda>c. c_level c = l) cs")
    case None
    then show ?thesis using Cons by simp
  next
    case (Some ci)
    note ci = this
    show ?thesis
    proof (cases "findIndex (holds a) (c_lines (cs ! ci))")
      case None
      then show ?thesis using Cons ci by simp
    next
      case (Some li)
      from findIndex_Some [OF ci] findIndex_Some [OF Some] Cons.prems ci Some
      show ?thesis
        by (intro exI [of _ ci] exI [of _ li]) simp
    qed
  qed
qed

lemma readScan_None:
  "readScan lvs a cyc cs = None \<Longrightarrow> lv \<in> set lvs \<Longrightarrow>
   findIndex (\<lambda>c. c_level c = lv) cs = Some ci \<Longrightarrow>
   findIndex (holds a) (c_lines (cs ! ci)) = None"
  by (induction lvs) (auto split: option.splits)

lemma writeScan_Some:
  "writeScan cs a v cyc = Some (lv, cs') \<Longrightarrow>
   \<exists>ci li. ci < length cs \<and> li < length (c_lines (cs ! ci)) \<and>
      holds a (c_lines (cs ! ci) ! li) \<and> lv = c_level (cs ! ci) \<and>
      cs' = cs[ci := (cs ! ci)\<lparr>c_hits := c_hits (cs ! ci) + 1,
                c_activeAddress := Some a, c_isHit := Some True,
                c_lines := (c_lines (cs ! ci))
                   [li := (c_lines (cs ! ci) ! li)\<lparr>l_value := v, l_dirty := True,
                                                     l_lastAccessed := cyc\<rparr>]\<rparr>]"
proof (induction cs arbitrary: cs')
  case Nil
  then show ?case by simp
next
  case (Cons c cs)
  show ?case
  proof (cases "findIndex (holds a) (c_lines c)")
    case (Some li)
    from findIndex_Some [OF Some] Cons.prems Some show ?thesis
      by (intro exI [of _ 0] exI [of _ li]) auto
  next
    case None
    then obtain cs'' where w: "writeScan cs a v cyc = Some (lv, cs'')" and c': "cs' = c # cs''"
      using Cons.prems by auto
    from Cons.IH [OF w] obtain ci li where
      "ci < length cs" "li < length (c_lines (cs ! ci))" "holds a (c_lines (cs ! ci) ! li)"
      "lv = c_level (cs ! ci)"
      "cs'' = cs[ci := (cs ! ci)\<lparr>c_hits := c_hits (cs ! ci) + 1,
                c_activeAddress := Some a, c_isHit := Some True,
                c_lines := (c_lines (cs ! ci))
                   [li := (c_lines (cs ! ci) ! li)\<lparr>l_value := v, l_dirty := True,
                                                     l_lastAccessed := cyc\<rparr>]\<rparr>]"
      by blast
    then show ?thesis
      by (intro exI [of _ "Suc ci"] exI [of _ li]) (simp add: c')
  qed
qed

lemma writeScan_None:
  "writeScan cs a v cyc = None \<Longrightarrow> c \<in> set cs \<Longrightarrow> findIndex (holds a) (c_lines c) = None"
  by (induction cs) (auto split: option.splits)


lemma clearActive_simps:
  "length (clearActive cs) = length cs"
  "i < length cs \<Longrightarrow> clearActive cs ! i = (cs ! i)\<lparr>c_activeAddress := None, c_isHit := None\<rparr>"
  "findIndex (\<lambda>c. c_level c = lv) (clearActive cs) = findIndex (\<lambda>c. c_level c = lv) cs"
  by (simp_all add: clearActive_def findIndex_map)

lemma list_all_clearActive:
  assumes "\<And>c x y. P (c\<lparr>c_activeAddress := x, c_isHit := y\<rparr>) = P c"
  shows "list_all P (clearActive cs) = list_all P cs"
  by (simp add: clearActive_def list_all_iff assms)

lemma active_last:
  "c\<lparr>c_hits := h, c_activeAddress := x, c_isHit := y, c_lines := ls\<rparr> =
     (c\<lparr>c_hits := h, c_lines := ls\<rparr>)\<lparr>c_activeAddress := x, c_isHit := y\<rparr>"
  "c\<lparr>c_misses := m, c_activeAddress := x, c_isHit := y, c_lines := ls\<rparr> =
     (c\<lparr>c_misses := m, c_lines := ls\<rparr>)\<lparr>c_activeAddress := x, c_isHit := y\<rparr>"
  by (cases c, simp)+

text \<open>
  A property of each cache that ignores the active state is kept by a cache access if a
  hit keeps it (a line that holds the address is touched: it stays valid and keeps its
  address) and a miss keeps it (a line of an L1 cache in which no line holds the address
  is replaced by a valid line with that address).
\<close>

lemma checkCache_preserves:
  assumes c: "checkCache a e = Inr (r, e')" and inv: "list_all P (cache e)"
    and act: "\<And>c x y. P (c\<lparr>c_activeAddress := x, c_isHit := y\<rparr>) = P c"
    and hit: "\<And>c li h l'. P c \<Longrightarrow> li < length (c_lines c) \<Longrightarrow>
       holds a (c_lines c ! li) \<Longrightarrow> l_valid l' \<Longrightarrow>
       l_address l' = l_address (c_lines c ! li) \<Longrightarrow>
       P (c\<lparr>c_hits := h, c_lines := (c_lines c)[li := l']\<rparr>)"
    and miss: "\<And>c li m l'. P c \<Longrightarrow> c_level c = L1 \<Longrightarrow> li < length (c_lines c) \<Longrightarrow>
       findIndex (holds a) (c_lines c) = None \<Longrightarrow> l_valid l' \<Longrightarrow> l_address l' = a \<Longrightarrow>
       P (c\<lparr>c_misses := m, c_lines := (c_lines c)[li := l']\<rparr>)"
  shows "list_all P (cache e')"
proof -
  let ?cs = "clearActive (cache e)"
  have inv': "list_all P ?cs"
    using inv by (simp add: list_all_clearActive [of P, OF act])
  have nth: "\<And>i. i < length ?cs \<Longrightarrow> P (?cs ! i)"
    using inv' by (simp add: list_all_length)
  show ?thesis
  proof (cases "readScan [L1, L2, L3] a (clockCycle e) ?cs")
    case (Some p)
    obtain lv cs' where p: "p = (lv, cs')" by (cases p)
    from readScan_Some [OF Some [unfolded p]] obtain ci li where
      ci: "ci < length ?cs" and li: "li < length (c_lines (?cs ! ci))"
      and h: "holds a (c_lines (?cs ! ci) ! li)"
      and cs': "cs' = ?cs[ci := (?cs ! ci)\<lparr>c_hits := c_hits (?cs ! ci) + 1,
                c_activeAddress := Some a, c_isHit := Some True,
                c_lines := (c_lines (?cs ! ci))
                   [li := (c_lines (?cs ! ci) ! li)\<lparr>l_lastAccessed := clockCycle e\<rparr>]\<rparr>]"
      by blast
    have "P ((?cs ! ci)\<lparr>c_hits := c_hits (?cs ! ci) + 1,
                c_lines := (c_lines (?cs ! ci))
                   [li := (c_lines (?cs ! ci) ! li)\<lparr>l_lastAccessed := clockCycle e\<rparr>]\<rparr>)"
      using h by (intro hit [OF nth [OF ci] li h]) (simp_all add: holds_def)
    then have "P ((?cs ! ci)\<lparr>c_hits := c_hits (?cs ! ci) + 1,
                c_activeAddress := Some a, c_isHit := Some True,
                c_lines := (c_lines (?cs ! ci))
                   [li := (c_lines (?cs ! ci) ! li)\<lparr>l_lastAccessed := clockCycle e\<rparr>]\<rparr>)"
      unfolding active_last act .
    then have "list_all P cs'"
      unfolding cs' by (rule list_all_update [OF inv'])
    moreover have "cache e' = cs'"
      using c Some p by (auto simp: checkCache_def Let_def)
    ultimately show ?thesis by simp
  next
    case None
    show ?thesis
    proof (cases "findIndex (\<lambda>c. c_level c = L1) ?cs")
      case N: None
      then have "cache e' = ?cs"
        using c None by (auto simp: checkCache_def Let_def)
      then show ?thesis using inv' by simp
    next
      case (Some ci)
      from findIndex_Some [OF Some] have ci: "ci < length ?cs" and l1: "c_level (?cs ! ci) = L1"
        by simp_all
      have nohold: "findIndex (holds a) (c_lines (?cs ! ci)) = None"
        by (rule readScan_None [OF None _ Some]) simp
      from c None Some obtain li where v: "readVictim (c_lines (?cs ! ci)) = Some li"
        by (cases "readVictim (c_lines (?cs ! ci))") (auto simp: checkCache_def Let_def)
      let ?l = "\<lparr>l_address = a, l_value = memoryValue a (memory e), l_valid = True,
                 l_dirty = False, l_lastAccessed = clockCycle e\<rparr>"
      let ?c = "(?cs ! ci)\<lparr>c_misses := c_misses (?cs ! ci) + 1,
                   c_activeAddress := Some a, c_isHit := Some False,
                   c_lines := (c_lines (?cs ! ci))[li := ?l]\<rparr>"
      have e': "cache e' = ?cs[ci := ?c]"
        using c None Some v by (auto simp: checkCache_def Let_def)
      have "P ((?cs ! ci)\<lparr>c_misses := c_misses (?cs ! ci) + 1,
                  c_lines := (c_lines (?cs ! ci))[li := ?l]\<rparr>)"
        by (rule miss [OF nth [OF ci] l1 readVictim_bound [OF v] nohold]) simp_all
      then have "P ?c"
        unfolding active_last act .
      then show ?thesis
        unfolding e' by (rule list_all_update [OF inv'])
    qed
  qed
qed


lemma updateCache_preserves:
  assumes c: "updateCache a v e = Inr (r, e')" and inv: "list_all P (cache e)"
    and act: "\<And>c x y. P (c\<lparr>c_activeAddress := x, c_isHit := y\<rparr>) = P c"
    and hit: "\<And>c li h l'. P c \<Longrightarrow> li < length (c_lines c) \<Longrightarrow>
       holds a (c_lines c ! li) \<Longrightarrow> l_valid l' \<Longrightarrow>
       l_address l' = l_address (c_lines c ! li) \<Longrightarrow>
       P (c\<lparr>c_hits := h, c_lines := (c_lines c)[li := l']\<rparr>)"
    and miss: "\<And>c li m l'. P c \<Longrightarrow> c_level c = L1 \<Longrightarrow> li < length (c_lines c) \<Longrightarrow>
       findIndex (holds a) (c_lines c) = None \<Longrightarrow> l_valid l' \<Longrightarrow> l_address l' = a \<Longrightarrow>
       P (c\<lparr>c_misses := m, c_lines := (c_lines c)[li := l']\<rparr>)"
  shows "list_all P (cache e')"
proof -
  let ?cs = "clearActive (cache e)"
  have inv': "list_all P ?cs"
    using inv by (simp add: list_all_clearActive [of P, OF act])
  have nth: "\<And>i. i < length ?cs \<Longrightarrow> P (?cs ! i)"
    using inv' by (simp add: list_all_length)
  show ?thesis
  proof (cases "writeScan ?cs a v (clockCycle e)")
    case (Some p)
    obtain lv cs' where p: "p = (lv, cs')" by (cases p)
    from writeScan_Some [OF Some [unfolded p]] obtain ci li where
      ci: "ci < length ?cs" and li: "li < length (c_lines (?cs ! ci))"
      and h: "holds a (c_lines (?cs ! ci) ! li)"
      and cs': "cs' = ?cs[ci := (?cs ! ci)\<lparr>c_hits := c_hits (?cs ! ci) + 1,
                c_activeAddress := Some a, c_isHit := Some True,
                c_lines := (c_lines (?cs ! ci))
                   [li := (c_lines (?cs ! ci) ! li)\<lparr>l_value := v, l_dirty := True,
                             l_lastAccessed := clockCycle e\<rparr>]\<rparr>]"
      by blast
    have "P ((?cs ! ci)\<lparr>c_hits := c_hits (?cs ! ci) + 1,
                c_lines := (c_lines (?cs ! ci))
                   [li := (c_lines (?cs ! ci) ! li)\<lparr>l_value := v, l_dirty := True,
                             l_lastAccessed := clockCycle e\<rparr>]\<rparr>)"
      using h by (intro hit [OF nth [OF ci] li h]) (simp_all add: holds_def)
    then have "P ((?cs ! ci)\<lparr>c_hits := c_hits (?cs ! ci) + 1,
                c_activeAddress := Some a, c_isHit := Some True,
                c_lines := (c_lines (?cs ! ci))
                   [li := (c_lines (?cs ! ci) ! li)\<lparr>l_value := v, l_dirty := True,
                             l_lastAccessed := clockCycle e\<rparr>]\<rparr>)"
      unfolding active_last act .
    then have "list_all P cs'"
      unfolding cs' by (rule list_all_update [OF inv'])
    moreover have "cache e' = cs'"
      using c Some p by (auto simp: updateCache_def Let_def)
    ultimately show ?thesis by simp
  next
    case None
    show ?thesis
    proof (cases "findIndex (\<lambda>c. c_level c = L1) ?cs")
      case N: None
      then have "cache e' = ?cs"
        using c None by (auto simp: updateCache_def Let_def)
      then show ?thesis using inv' by simp
    next
      case (Some ci)
      from findIndex_Some [OF Some] have ci: "ci < length ?cs" and l1: "c_level (?cs ! ci) = L1"
        by simp_all
      have nohold: "findIndex (holds a) (c_lines (?cs ! ci)) = None"
        using ci by (intro writeScan_None [OF None]) simp
      from c None Some obtain li where w: "writeVictim (c_lines (?cs ! ci)) = Some li"
        by (cases "writeVictim (c_lines (?cs ! ci))") (auto simp: updateCache_def Let_def)
      let ?l = "\<lparr>l_address = a, l_value = v, l_valid = True,
                 l_dirty = True, l_lastAccessed = clockCycle e\<rparr>"
      let ?c = "(?cs ! ci)\<lparr>c_misses := c_misses (?cs ! ci) + 1,
                   c_activeAddress := Some a, c_isHit := Some False,
                   c_lines := (c_lines (?cs ! ci))[li := ?l]\<rparr>"
      have e': "cache e' = ?cs[ci := ?c]"
        using c None Some w by (auto simp: updateCache_def Let_def)
      have "P ((?cs ! ci)\<lparr>c_misses := c_misses (?cs ! ci) + 1,
                  c_lines := (c_lines (?cs ! ci))[li := ?l]\<rparr>)"
        by (rule miss [OF nth [OF ci] l1 writeVictim_bound [OF w] nohold]) simp_all
      then have "P ?c"
        unfolding active_last act .
      then show ?thesis
        unfolding e' by (rule list_all_update [OF inv'])
    qed
  qed
qed

section \<open>One valid line per address\<close>









section \<open>The levels above L1\<close>

lemma unusedLevel_no_hold: "unusedLevel c \<Longrightarrow> li < length (c_lines c) \<Longrightarrow> \<not> holds a (c_lines c ! li)"
  by (auto simp: unusedLevel_def list_all_length holds_def)

lemma checkCache_upperLevelsUnused:
  assumes "checkCache a e = Inr (r, e')" and "upperLevelsUnused e"
  shows "upperLevelsUnused e'"
  unfolding upperLevelsUnused_def
proof (rule checkCache_preserves [OF assms(1)])
  show "list_all (\<lambda>c. c_level c = L1 \<or> unusedLevel c) (cache e)"
    using assms(2) by (simp add: upperLevelsUnused_def)
next
  fix c :: cache_state and x y
  show "(c_level (c\<lparr>c_activeAddress := x, c_isHit := y\<rparr>) = L1 \<or>
         unusedLevel (c\<lparr>c_activeAddress := x, c_isHit := y\<rparr>)) =
        (c_level c = L1 \<or> unusedLevel c)"
    by (simp add: unusedLevel_def)
next
  fix c :: cache_state and li h l'
  assume "c_level c = L1 \<or> unusedLevel c" "li < length (c_lines c)"
    "holds a (c_lines c ! li)"
  then have "c_level c = L1"
    using unusedLevel_no_hold by blast
  then show "c_level (c\<lparr>c_hits := h, c_lines := (c_lines c)[li := l']\<rparr>) = L1 \<or>
             unusedLevel (c\<lparr>c_hits := h, c_lines := (c_lines c)[li := l']\<rparr>)"
    by simp
next
  fix c :: cache_state and li m l'
  assume "c_level c = L1"
  then show "c_level (c\<lparr>c_misses := m, c_lines := (c_lines c)[li := l']\<rparr>) = L1 \<or>
             unusedLevel (c\<lparr>c_misses := m, c_lines := (c_lines c)[li := l']\<rparr>)"
    by simp
qed

lemma updateCache_upperLevelsUnused:
  assumes "updateCache a v e = Inr (r, e')" and "upperLevelsUnused e"
  shows "upperLevelsUnused e'"
  unfolding upperLevelsUnused_def
proof (rule updateCache_preserves [OF assms(1)])
  show "list_all (\<lambda>c. c_level c = L1 \<or> unusedLevel c) (cache e)"
    using assms(2) by (simp add: upperLevelsUnused_def)
next
  fix c :: cache_state and x y
  show "(c_level (c\<lparr>c_activeAddress := x, c_isHit := y\<rparr>) = L1 \<or>
         unusedLevel (c\<lparr>c_activeAddress := x, c_isHit := y\<rparr>)) =
        (c_level c = L1 \<or> unusedLevel c)"
    by (simp add: unusedLevel_def)
next
  fix c :: cache_state and li h l'
  assume "c_level c = L1 \<or> unusedLevel c" "li < length (c_lines c)"
    "holds a (c_lines c ! li)"
  then have "c_level c = L1"
    using unusedLevel_no_hold by blast
  then show "c_level (c\<lparr>c_hits := h, c_lines := (c_lines c)[li := l']\<rparr>) = L1 \<or>
             unusedLevel (c\<lparr>c_hits := h, c_lines := (c_lines c)[li := l']\<rparr>)"
    by simp
next
  fix c :: cache_state and li m l'
  assume "c_level c = L1"
  then show "c_level (c\<lparr>c_misses := m, c_lines := (c_lines c)[li := l']\<rparr>) = L1 \<or>
             unusedLevel (c\<lparr>c_misses := m, c_lines := (c_lines c)[li := l']\<rparr>)"
    by simp
qed


section \<open>What a step does to the cache\<close>

lemma executeLOAD_cache:
  assumes "executeLOAD h ins st e = Inr (st', e')"
  shows "cache e' = cache e \<or>
         (\<exists>a r e2. checkCache a e = Inr (r, e2) \<and> cache e' = cache e2)"
proof (cases "\<exists>n d ri a. i_operand1 ins = Some (Num n) \<and> i_destination ins = Some d \<and> d \<noteq> [] \<and>
          findIndex (\<lambda>r. r_name r = d) (registers e) = Some ri \<and> i_address ins = Some a")
  case False
  then have "cache e' = cache e"
    using assms
    by (auto simp: executeLOAD_def addBusTransfer_def
        split: option.splits operand.splits if_splits)
  then show ?thesis by simp
next
  case True
  then obtain n d ri a where d: "i_operand1 ins = Some (Num n)" "i_destination ins = Some d"
    "d \<noteq> []" "findIndex (\<lambda>r. r_name r = d) (registers e) = Some ri" "i_address ins = Some a"
    by blast
  from assms d obtain r e2 where u: "checkCache a e = Inr (r, e2)" and c: "cache e' = cache e2"
    by (auto simp: executeLOAD_def Let_def addBusTransfer_def
        split: sum.splits prod.splits if_splits option.splits)
  then show ?thesis by blast
qed

lemma executeSTORE_cache:
  assumes "executeSTORE h ins st e = Inr (st', e')"
  shows "cache e' = cache e \<or>
         (\<exists>a v r e1 e2. cache e1 = cache e \<and> updateCache a v e1 = Inr (r, e2) \<and>
            cache e' = cache e2)"
proof (cases "\<exists>d a ri mi. i_destination ins = Some d \<and> d \<noteq> [] \<and> i_address ins = Some a \<and>
          findIndex (\<lambda>r. r_name r = d) (registers e) = Some ri \<and>
          findIndex (\<lambda>m. strictEq (m_address m) a) (memory e) = Some mi")
  case False
  then have "e' = e"
    using assms by (auto simp: executeSTORE_def split: option.splits if_splits)
  then show ?thesis by simp
next
  case True
  then obtain d a ri mi where d: "i_destination ins = Some d" "d \<noteq> []" "i_address ins = Some a"
    "findIndex (\<lambda>r. r_name r = d) (registers e) = Some ri"
    "findIndex (\<lambda>m. strictEq (m_address m) a) (memory e) = Some mi"
    by blast
  let ?v = "r_value (registers e ! ri)"
  let ?e1 = "e\<lparr>memory := (memory e)
                [mi := (memory e ! mi)\<lparr>m_value := ?v, m_active := True, m_used := True\<rparr>]\<rparr>"
  from assms d obtain r e2 where u: "updateCache a ?v ?e1 = Inr (r, e2)" and c: "cache e' = cache e2"
    by (auto simp: executeSTORE_def Let_def addBusTransfer_def
        split: sum.splits prod.splits if_splits)
  have "cache ?e1 = cache e" by simp
  with u c show ?thesis by blast
qed

lemma executeALU_cache: "executeALU h ins st e = Inr (st', e') \<Longrightarrow> cache e' = cache e"
  by (auto simp: executeALU_def Let_def addBusTransfer_def
      split: option.splits if_splits)

lemma executeMOV_cache: "executeMOV ins st e = Inr (st', e') \<Longrightarrow> cache e' = cache e"
  by (auto simp: executeMOV_def split: option.splits operand.splits if_splits)

lemma executeExecute_cache:
  assumes "executeExecute h ins st e = Inr (st', e')"
  shows "cache e' = cache e \<or>
         (\<exists>a r e2. checkCache a e = Inr (r, e2) \<and> cache e' = cache e2) \<or>
         (\<exists>a v r e1 e2. cache e1 = cache e \<and> updateCache a v e1 = Inr (r, e2) \<and>
            cache e' = cache e2)"
proof (cases "i_opcode ins")
  case LOAD
  then have "executeLOAD h ins st e = Inr (st', e')"
    using assms by (simp add: executeExecute_def)
  from executeLOAD_cache [OF this] show ?thesis by blast
next
  case STORE
  then have "executeSTORE h ins st e = Inr (st', e')"
    using assms by (simp add: executeExecute_def)
  from executeSTORE_cache [OF this] show ?thesis by blast
next
  case MOV
  then show ?thesis
    using assms executeMOV_cache [of ins st e st' e'] by (simp add: executeExecute_def)
qed (use assms executeALU_cache [of h ins st e st' e'] in \<open>simp_all add: executeExecute_def\<close>)

lemma step_cache:
  assumes "step h e = Inr (b, e')"
  shows "cache e' = cache e \<or>
         (\<exists>a r e1 e2. cache e1 = cache e \<and> checkCache a e1 = Inr (r, e2) \<and>
            cache e' = cache e2) \<or>
         (\<exists>a v r e1 e2. cache e1 = cache e \<and> updateCache a v e1 = Inr (r, e2) \<and>
            cache e' = cache e2)"
proof (cases "instructionIndex e < length (currentInstructions e)")
  case False
  then have "e' = e" using assms by (auto simp: step_def split: if_splits)
  then show ?thesis by simp
next
  case True
  let ?ins = "currentInstructions e ! instructionIndex e"
  let ?ph = "nthOpt phases (phaseIndex e)"
  let ?e1 = "e\<lparr>currentPhase := ?ph, clockCycle := clockCycle e + 1\<rparr>"
  let ?st = "\<lparr>s_cycle = clockCycle ?e1, s_phase = ?ph, s_instruction = Some ?ins,
              s_registerChanges = [], s_memoryChanges = []\<rparr>"
  have e1: "cache ?e1 = cache e" by simp
  show ?thesis
  proof (cases "?ph = Some EXECUTE")
    case False
    then have "cache e' = cache ?e1"
      using assms True
      by (auto simp: step_def Let_def advance_def executeFetch_def executeDecode_def
          executeStore_def addBusTransfer_def
          split: option.splits instruction_phase.splits if_splits prod.splits)
    then show ?thesis by simp
  next
    case ex: True
    from assms True ex obtain st' e2 where x: "executeExecute h ?ins ?st ?e1 = Inr (st', e2)"
      and c: "cache e' = cache e2"
      by (auto simp: step_def Let_def advance_def split: sum.splits prod.splits if_splits)
    from executeExecute_cache [OF x] e1 c show ?thesis
      by (metis (no_types, lifting))
  qed
qed

section \<open>Reachable states\<close>




lemma upperLevelsUnused_initial: "upperLevelsUnused createInitialState"
  by (simp add: upperLevelsUnused_def createInitialState_def freshCache_def unusedLevel_def
      freshLine_def list_all_iff)

lemma reachable_upperLevelsUnused: "reachable e \<Longrightarrow> upperLevelsUnused e"
proof (induction rule: reachable.induct)
  case (r_reset e)
  show ?case by (simp add: reset_def upperLevelsUnused_initial)
next
  case (r_step e h b e')
  from step_cache [OF r_step.hyps(2)] show ?case
  proof (elim disjE exE conjE)
    assume "cache e' = cache e"
    then show ?thesis using r_step.IH by (simp add: upperLevelsUnused_def)
  next
    fix a r e1 e2
    assume a: "cache e1 = cache e" "checkCache a e1 = Inr (r, e2)" "cache e' = cache e2"
    have "upperLevelsUnused e1" using r_step.IH a(1) by (simp add: upperLevelsUnused_def)
    from checkCache_upperLevelsUnused [OF a(2) this] a(3) show ?thesis
      by (simp add: upperLevelsUnused_def)
  next
    fix a v r e1 e2
    assume a: "cache e1 = cache e" "updateCache a v e1 = Inr (r, e2)" "cache e' = cache e2"
    have "upperLevelsUnused e1" using r_step.IH a(1) by (simp add: upperLevelsUnused_def)
    from updateCache_upperLevelsUnused [OF a(2) this] a(3) show ?thesis
      by (simp add: upperLevelsUnused_def)
  qed
next
  case (r_setExample e x)
  then show ?case by (simp add: upperLevelsUnused_def setExample_def)
next
  case (r_checkCache e a r e')
  then show ?case by (simp add: checkCache_upperLevelsUnused)
next
  case (r_updateCache e a v r e')
  then show ?case by (simp add: updateCache_upperLevelsUnused)
next
  case (r_clearCacheActive e)
  then show ?case
    by (simp add: upperLevelsUnused_def clearCacheActive_def clearActive_def list_all_iff
        unusedLevel_def)
next
  case (r_expireTransfer e tid)
  then show ?case
    by (simp add: upperLevelsUnused_def expireTransfer_def split: option.splits)
next
  case (r_program e prog)
  then show ?case
    by (simp add: upperLevelsUnused_def)
qed

lemma hit_is_at_L1:
  assumes u: "upperLevelsUnused e" and ci: "ci < length (cache e)"
    and li: "li < length (c_lines (clearActive (cache e) ! ci))"
    and h: "holds a (c_lines (clearActive (cache e) ! ci) ! li)"
  shows "c_level (clearActive (cache e) ! ci) = L1"
proof -
  have "c_level (cache e ! ci) = L1 \<or> unusedLevel (cache e ! ci)"
    using u ci by (simp add: upperLevelsUnused_def list_all_length)
  moreover have "\<not> unusedLevel (cache e ! ci)"
    using unusedLevel_no_hold [of "cache e ! ci" li a] li h ci by (auto simp: clearActive_simps)
  ultimately show ?thesis
    using ci by (simp add: clearActive_simps)
qed

lemma checkCache_hitLevel:
  assumes "upperLevelsUnused e"
  shows "hitLevel (checkCache a e) \<in> {None, Some L1}"
proof (cases "readScan [L1, L2, L3] a (clockCycle e) (clearActive (cache e))")
  case None
  then show ?thesis
    by (auto simp: hitLevel_def checkCache_def Let_def split: option.splits)
next
  case (Some p)
  obtain lv cs' where p: "p = (lv, cs')" by (cases p)
  from readScan_Some [OF Some [unfolded p]] hit_is_at_L1 [OF assms]
  have "lv = L1" by (auto simp: clearActive_simps)
  then show ?thesis
    using Some p by (simp add: hitLevel_def checkCache_def Let_def)
qed

lemma updateCache_hitLevel:
  assumes "upperLevelsUnused e"
  shows "hitLevel (updateCache a v e) \<in> {None, Some L1}"
proof (cases "writeScan (clearActive (cache e)) a v (clockCycle e)")
  case None
  then show ?thesis
    by (auto simp: hitLevel_def updateCache_def Let_def split: option.splits)
next
  case (Some p)
  obtain lv cs' where p: "p = (lv, cs')" by (cases p)
  from writeScan_Some [OF Some [unfolded p]] hit_is_at_L1 [OF assms]
  have "lv = L1" by (auto simp: clearActive_simps)
  then show ?thesis
    using Some p by (simp add: hitLevel_def updateCache_def Let_def)
qed




section \<open>Cache accesses raise nothing when every cache has a line\<close>

lemma checkCache_frame: "checkCache a e = Inr (r, e') \<Longrightarrow> e' = e\<lparr>cache := cache e'\<rparr>"
  by (auto simp: checkCache_def Let_def split: option.splits)

lemma updateCache_frame: "updateCache a v e = Inr (r, e') \<Longrightarrow> e' = e\<lparr>cache := cache e'\<rparr>"
  by (auto simp: updateCache_def Let_def split: option.splits)

lemma checkCache_total:
  assumes "linesPresent e"
  shows "\<exists>r e'. checkCache a e = Inr (r, e')"
proof (cases "checkCache a e")
  case (Inr p)
  then show ?thesis by (cases p) simp
next
  case (Inl err)
  then obtain ci where ci: "findIndex (\<lambda>c. c_level c = L1) (clearActive (cache e)) = Some ci"
    and v: "readVictim (c_lines (clearActive (cache e) ! ci)) = None"
    by (auto simp: checkCache_def Let_def split: option.splits)
  from findIndex_Some [OF ci] have "ci < length (cache e)"
    by (simp add: clearActive_simps)
  then have "c_lines (clearActive (cache e) ! ci) \<noteq> []"
    using assms by (simp add: linesPresent_def list_all_length clearActive_simps)
  with v show ?thesis by (simp add: readVictim_None)
qed

lemma updateCache_total:
  assumes "linesPresent e"
  shows "\<exists>r e'. updateCache a v e = Inr (r, e')"
proof (cases "updateCache a v e")
  case (Inr p)
  then show ?thesis by (cases p) simp
next
  case (Inl err)
  then obtain ci where ci: "findIndex (\<lambda>c. c_level c = L1) (clearActive (cache e)) = Some ci"
    and v: "writeVictim (c_lines (clearActive (cache e) ! ci)) = None"
    by (auto simp: updateCache_def Let_def split: option.splits)
  from findIndex_Some [OF ci] have "ci < length (cache e)"
    by (simp add: clearActive_simps)
  then have "c_lines (clearActive (cache e) ! ci) \<noteq> []"
    using assms by (simp add: linesPresent_def list_all_length clearActive_simps)
  with v show ?thesis by (simp add: writeVictim_None)
qed

lemma checkCache_linesPresent:
  "checkCache a e = Inr (r, e') \<Longrightarrow> linesPresent e \<Longrightarrow> linesPresent e'"
  unfolding linesPresent_def
  by (erule checkCache_preserves) simp_all

lemma updateCache_linesPresent:
  "updateCache a v e = Inr (r, e') \<Longrightarrow> linesPresent e \<Longrightarrow> linesPresent e'"
  unfolding linesPresent_def
  by (erule updateCache_preserves) simp_all

lemma linesPresent_initial: "linesPresent createInitialState"
  by (simp add: linesPresent_def createInitialState_def freshCache_def)

section \<open>Claims C6 and C9\<close>



lemma afterRead5_reachable: "reachable afterRead5"
proof -
  have "linesPresent (reset createInitialState)"
    by (simp add: reset_def linesPresent_initial)
  from checkCache_total [OF this, of "Finite 5"] obtain r e' where
    c: "checkCache (Finite 5) (reset createInitialState) = Inr (r, e')"
    by blast
  then have "afterRead5 = e'"
    by (simp add: afterRead5_def)
  with reachable.r_checkCache [OF reachable.r_reset c] show ?thesis
    by simp
qed


text \<open>
  Claim C9. In every state reachable from \<open>reset()\<close> by \<open>step()\<close>, \<open>setExample\<close>,
  \<open>checkCache\<close> and \<open>updateCache\<close> calls (and the timer callbacks), every cache
  whose level is not L1 has no valid line and hit and miss counters 0; and a cache access
  that hits, on the read path or on the write path, reports level L1.
\<close>

theorem upper_levels_stay_unused:
  assumes "reachable e"
  shows "upperLevelsUnused e \<and>
         hitLevel (checkCache a e) \<in> {None, Some L1} \<and>
         hitLevel (updateCache a v e) \<in> {None, Some L1}"
  using reachable_upperLevelsUnused [OF assms] checkCache_hitLevel updateCache_hitLevel
  by simp

theorem upper_levels_stay_unused_witness:
  "reachable afterRead5 \<and> upperLevelsUnused afterRead5 \<and>
   hitLevel (checkCache (Finite 5) afterRead5) \<in> {None, Some L1} \<and>
   hitLevel (updateCache (Finite 5) 9 afterRead5) \<in> {None, Some L1}"
  using upper_levels_stay_unused [OF afterRead5_reachable, of "Finite 5" 9] afterRead5_reachable by simp

section \<open>The cursor\<close>

lemma checkCache_cursor: "checkCache a e = Inr (r, e') \<Longrightarrow> cursor e' = cursor e"
  by (auto simp: checkCache_def Let_def cursor_def split: option.splits)

lemma updateCache_cursor: "updateCache a v e = Inr (r, e') \<Longrightarrow> cursor e' = cursor e"
  by (auto simp: updateCache_def Let_def cursor_def split: option.splits)

lemma linesPresent_cache: "cache e' = cache e \<Longrightarrow> linesPresent e' = linesPresent e"
  by (simp add: linesPresent_def)

lemma executeLOAD_sound:
  assumes "linesPresent e"
  shows "\<exists>st' e'. executeLOAD h ins st e = Inr (st', e') \<and> cursor e' = cursor e \<and> linesPresent e'"
proof (cases "\<exists>n d ri a. i_operand1 ins = Some (Num n) \<and> i_destination ins = Some d \<and> d \<noteq> [] \<and>
          findIndex (\<lambda>r. r_name r = d) (registers e) = Some ri \<and> i_address ins = Some a")
  case False
  then show ?thesis
    using assms
    by (auto simp: executeLOAD_def addBusTransfer_def cursor_def linesPresent_def
        split: option.splits operand.splits if_splits)
next
  case True
  then obtain n d ri a where d: "i_operand1 ins = Some (Num n)" "i_destination ins = Some d"
    "d \<noteq> []" "findIndex (\<lambda>r. r_name r = d) (registers e) = Some ri" "i_address ins = Some a"
    by blast
  from checkCache_total [OF assms, of a] obtain r e2 where c: "checkCache a e = Inr (r, e2)"
    by blast
  have e2: "cursor e2 = cursor e" "linesPresent e2"
    using checkCache_cursor [OF c] checkCache_linesPresent [OF c assms] by simp_all
  then show ?thesis
    using d c
    by (auto simp: executeLOAD_def Let_def addBusTransfer_def cursor_def linesPresent_def
        split: option.splits if_splits)
qed

lemma executeSTORE_sound:
  assumes "linesPresent e"
  shows "\<exists>st' e'. executeSTORE h ins st e = Inr (st', e') \<and> cursor e' = cursor e \<and> linesPresent e'"
proof (cases "\<exists>d a ri mi. i_destination ins = Some d \<and> d \<noteq> [] \<and> i_address ins = Some a \<and>
          findIndex (\<lambda>r. r_name r = d) (registers e) = Some ri \<and>
          findIndex (\<lambda>m. strictEq (m_address m) a) (memory e) = Some mi")
  case False
  then show ?thesis
    using assms
    by (auto simp: executeSTORE_def cursor_def split: option.splits if_splits)
next
  case True
  then obtain d a ri mi where d: "i_destination ins = Some d" "d \<noteq> []" "i_address ins = Some a"
    "findIndex (\<lambda>r. r_name r = d) (registers e) = Some ri"
    "findIndex (\<lambda>m. strictEq (m_address m) a) (memory e) = Some mi"
    by blast
  let ?v = "r_value (registers e ! ri)"
  let ?e1 = "e\<lparr>memory := (memory e)
                [mi := (memory e ! mi)\<lparr>m_value := ?v, m_active := True, m_used := True\<rparr>]\<rparr>"
  have lp: "linesPresent ?e1"
    using assms by (simp add: linesPresent_def)
  from updateCache_total [OF lp, of a ?v] obtain r e2 where c: "updateCache a ?v ?e1 = Inr (r, e2)"
    by blast
  have e2: "cursor e2 = cursor e" "linesPresent e2"
    using updateCache_cursor [OF c] updateCache_linesPresent [OF c lp] by (simp_all add: cursor_def)
  then show ?thesis
    using d c
    by (auto simp: executeSTORE_def Let_def addBusTransfer_def cursor_def linesPresent_def)
qed

lemma executeALU_sound:
  "\<exists>st' e'. executeALU h ins st e = Inr (st', e') \<and> cursor e' = cursor e \<and> cache e' = cache e"
  by (auto simp: executeALU_def Let_def addBusTransfer_def cursor_def
      split: option.splits if_splits)

lemma executeMOV_sound:
  "\<exists>st' e'. executeMOV ins st e = Inr (st', e') \<and> cursor e' = cursor e \<and> cache e' = cache e"
  by (auto simp: executeMOV_def cursor_def split: option.splits operand.splits if_splits)

lemma executeExecute_sound:
  assumes "linesPresent e"
  shows "\<exists>st' e'. executeExecute h ins st e = Inr (st', e') \<and> cursor e' = cursor e \<and>
           linesPresent e'"
proof (cases "i_opcode ins")
  case LOAD
  then show ?thesis
    using executeLOAD_sound [OF assms, of h ins st] by (simp add: executeExecute_def)
next
  case STORE
  then show ?thesis
    using executeSTORE_sound [OF assms, of h ins st] by (simp add: executeExecute_def)
next
  case MOV
  then show ?thesis
    using executeMOV_sound [of ins st e] assms
    by (auto simp: executeExecute_def linesPresent_def)
qed (use executeALU_sound [of h ins st e] assms in
      \<open>auto simp: executeExecute_def linesPresent_def\<close>)

text \<open>One call of \<open>step()\<close> with work left: it returns, and the cursor moves one phase on.\<close>

lemma step_advances:
  assumes lp: "linesPresent e" and idx: "instructionIndex e < length (currentInstructions e)"
    and ph: "phaseIndex e < 4"
  shows "\<exists>e'. step h e = Inr (instructionIndex e' < length (currentInstructions e), e') \<and>
           linesPresent e' \<and> currentInstructions e' = currentInstructions e \<and>
           phaseIndex e' < 4 \<and>
           4 * instructionIndex e' + phaseIndex e' = 4 * instructionIndex e + phaseIndex e + 1"
proof -
  let ?ins = "currentInstructions e ! instructionIndex e"
  let ?ph = "nthOpt phases (phaseIndex e)"
  let ?e1 = "e\<lparr>currentPhase := ?ph, clockCycle := clockCycle e + 1\<rparr>"
  let ?st = "\<lparr>s_cycle = clockCycle ?e1, s_phase = ?ph, s_instruction = Some ?ins,
              s_registerChanges = [], s_memoryChanges = []\<rparr>"
  let ?body = "case ?ph of
                    Some FETCH \<Rightarrow> Inr (executeFetch h ?ins ?st ?e1)
                  | Some DECODE \<Rightarrow> Inr (executeDecode ?ins ?st ?e1)
                  | Some EXECUTE \<Rightarrow> executeExecute h ?ins ?st ?e1
                  | Some STORE_PHASE \<Rightarrow> Inr (executeStore ?ins ?st ?e1)
                  | _ \<Rightarrow> Inr (?st, ?e1)"
  have lp1: "linesPresent ?e1"
    using lp by (simp add: linesPresent_def)
  have c1: "cursor ?e1 = cursor e"
    by (simp add: cursor_def)
  from ph have "phaseIndex e = 0 \<or> phaseIndex e = 1 \<or> phaseIndex e = 2 \<or> phaseIndex e = 3"
    by arith
  then have "\<exists>st' e2. ?body = Inr (st', e2) \<and> cursor e2 = cursor e \<and> linesPresent e2"
  proof (elim disjE)
    assume "phaseIndex e = 0"
    then show ?thesis
      using lp by (auto simp: nthOpt_def phases_def executeFetch_def addBusTransfer_def Let_def
          cursor_def linesPresent_def split: option.splits)
  next
    assume "phaseIndex e = 1"
    then show ?thesis
      using lp by (auto simp: nthOpt_def phases_def executeDecode_def
          cursor_def linesPresent_def split: option.splits)
  next
    assume "phaseIndex e = 2"
    then show ?thesis
      using executeExecute_sound [OF lp1, of h ?ins ?st] c1
      by (simp add: nthOpt_def phases_def)
  next
    assume "phaseIndex e = 3"
    then show ?thesis
      using lp by (auto simp: nthOpt_def phases_def executeStore_def
          cursor_def linesPresent_def)
  qed
  then obtain st' e2 where b: "?body = Inr (st', e2)" and c2: "cursor e2 = cursor e"
    and lp2: "linesPresent e2"
    by blast
  let ?e3 = "advance (e2\<lparr>history := history e2 @ [st']\<rparr>)"
  have ne: "length (currentInstructions e) \<noteq> 0"
    "\<not> length (currentInstructions e) \<le> instructionIndex e"
    using idx by auto
  have s: "step h e = Inr (instructionIndex ?e3 < length (currentInstructions ?e3), ?e3)"
    unfolding step_def Let_def by (simp only: ne b if_False sum.case prod.case)
  have "linesPresent ?e3" "currentInstructions ?e3 = currentInstructions e" "phaseIndex ?e3 < 4"
    "4 * instructionIndex ?e3 + phaseIndex ?e3 = 4 * instructionIndex e + phaseIndex e + 1"
    using lp2 c2 ph by (auto simp: advance_def phases_def cursor_def linesPresent_def)
  with s show ?thesis
    by (intro exI [of _ ?e3]) simp
qed

lemma step_exhausted:
  "length (currentInstructions e) \<le> instructionIndex e \<Longrightarrow> step h e = Inr (False, e)"
  by (simp add: step_def)

text \<open>
  The booleans that successive calls return: the call made at position \<open>p\<close> (four times
  the instruction index, plus the phase index) returns whether \<open>p + 1\<close> is still inside
  the program.
\<close>

lemma run_returns:
  assumes "linesPresent e" and "phaseIndex e < 4"
  shows "\<exists>e'. run hs n e =
           Inr (map (\<lambda>k. 4 * instructionIndex e + phaseIndex e + k + 1
                            < 4 * length (currentInstructions e)) [0..<n], e')"
  using assms
proof (induction n arbitrary: e hs)
  case 0
  show ?case by simp
next
  case (Suc n)
  let ?N = "length (currentInstructions e)"
  let ?p = "4 * instructionIndex e + phaseIndex e"
  have upt: "[0..<Suc n] = 0 # map Suc [0..<n]"
    by (simp add: upt_conv_Cons map_Suc_upt del: upt_Suc)
  show ?case
  proof (cases "instructionIndex e < ?N")
    case False
    then have s: "step (hs 0) e = Inr (False, e)"
      by (simp add: step_exhausted)
    from Suc.IH [OF Suc.prems, of "\<lambda>k. hs (Suc k)"] obtain e' where
      r: "run (\<lambda>k. hs (Suc k)) n e = Inr (map (\<lambda>k. ?p + k + 1 < 4 * ?N) [0..<n], e')"
      by blast
    have "\<And>k. \<not> ?p + k + 1 < 4 * ?N"
      using False by arith
    then show ?thesis
      using s r by (simp add: upt o_def del: upt_Suc)
  next
    case True
    from step_advances [OF Suc.prems(1) True Suc.prems(2), of "hs 0"] obtain e1 where
      s: "step (hs 0) e = Inr (instructionIndex e1 < ?N, e1)" and lp: "linesPresent e1"
      and prog: "currentInstructions e1 = currentInstructions e" and ph: "phaseIndex e1 < 4"
      and pos: "4 * instructionIndex e1 + phaseIndex e1 = ?p + 1"
      by blast
    from Suc.IH [OF lp ph, of "\<lambda>k. hs (Suc k)"] obtain e' where
      r: "run (\<lambda>k. hs (Suc k)) n e1 =
            Inr (map (\<lambda>k. 4 * instructionIndex e1 + phaseIndex e1 + k + 1 < 4 * ?N) [0..<n], e')"
      by (auto simp: prog)
    have b: "(instructionIndex e1 < ?N) = (?p + 0 + 1 < 4 * ?N)"
      using pos ph by arith
    show ?thesis
      using s r by (simp add: upt o_def b pos del: upt_Suc)
  qed
qed

lemma returns_shape:
  assumes "0 < N"
  shows "map (\<lambda>k. k + 1 < 4 * N) [0..<4 * N + 1] = replicate (4 * N - 1) True @ [False, False]"
proof (rule nth_equalityI)
  show "length (map (\<lambda>k. k + 1 < 4 * N) [0..<4 * N + 1]) =
        length (replicate (4 * N - 1) True @ [False, False])"
    using assms by simp
next
  fix i assume "i < length (map (\<lambda>k. k + 1 < 4 * N) [0..<4 * N + 1])"
  then have i: "i < 4 * N + 1" by simp
  show "map (\<lambda>k. k + 1 < 4 * N) [0..<4 * N + 1] ! i =
        (replicate (4 * N - 1) True @ [False, False]) ! i"
  proof (cases "i < 4 * N - 1")
    case True
    then show ?thesis using i by (simp add: nth_append del: upt_Suc)
  next
    case False
    then have "i = 4 * N - 1 \<or> i = 4 * N" using i by arith
    then show ?thesis
      using assms i by (auto simp: nth_append nth_Cons' simp del: upt_Suc)
  qed
qed

text \<open>
  Claim C2, as amended. For every program of N instructions (N at least 1) held by an
  engine whose every cache has a line (as after \<open>reset()\<close>), starting from instruction
  0 and phase 0: the first 4N - 1 calls to \<open>step()\<close> return true, and the 4N-th call and
  the (4N+1)-th return false. \<open>step()\<close> returns whether work remains after the phase it
  has just run, so the call that runs the last phase already returns false.
\<close>

theorem step_returns_true_until_the_last_phase:
  assumes "linesPresent e" and "instructionIndex e = 0" and "phaseIndex e = 0"
    and "1 \<le> length (currentInstructions e)"
  shows "returned (run hs (4 * length (currentInstructions e) + 1) e) =
           Some (replicate (4 * length (currentInstructions e) - 1) True @ [False, False])"
proof -
  let ?N = "length (currentInstructions e)"
  from run_returns [OF assms(1), of hs "4 * ?N + 1"] assms(2,3) obtain e' where
    "run hs (4 * ?N + 1) e = Inr (map (\<lambda>k. k + 1 < 4 * ?N) [0..<4 * ?N + 1], e')"
    by auto
  moreover have "0 < ?N" using assms(4) by (cases "currentInstructions e") simp_all
  ultimately show ?thesis
    by (simp only: returned_def returns_shape sum.case fst_conv)
qed


theorem step_returns_true_until_the_last_phase_witness:
  "linesPresent (calculator 5 3 Plus) \<and> instructionIndex (calculator 5 3 Plus) = 0 \<and>
   phaseIndex (calculator 5 3 Plus) = 0 \<and>
   1 \<le> length (currentInstructions (calculator 5 3 Plus)) \<and>
   returned (run stillHosts 17 (calculator 5 3 Plus)) = Some (replicate 15 True @ [False, False])"
proof -
  have lp: "linesPresent (calculator 5 3 Plus)"
    using linesPresent_initial
    by (simp add: calculator_def setExample_def reset_def linesPresent_def)
  have cur: "instructionIndex (calculator 5 3 Plus) = 0" "phaseIndex (calculator 5 3 Plus) = 0"
    by (simp_all add: calculator_def setExample_def)
  have len: "length (currentInstructions (calculator 5 3 Plus)) = 4"
    by (simp add: calculator_def setExample_def generateCalculatorInstructions_def)
  have n: "1 \<le> length (currentInstructions (calculator 5 3 Plus))"
    by (simp add: len)
  from step_returns_true_until_the_last_phase [OF lp cur n, of stillHosts]
  have "returned (run stillHosts 17 (calculator 5 3 Plus)) =
          Some (replicate 15 True @ [False, False])"
    by (simp add: len)
  with lp cur n show ?thesis
    by (intro conjI)
qed

text \<open>
  Claim C2 as stated fails: of the first 4N calls the last one returns false. The
  calculator program has N = 4 instructions, and its 16th call returns false.
\<close>

theorem sixteenth_call_returns_false:
  "length (currentInstructions (calculator 5 3 Plus)) = 4 \<and>
   returned (run stillHosts 16 (calculator 5 3 Plus)) =
     Some [True, True, True, True, True, True, True, True,
           True, True, True, True, True, True, True, False] \<and>
   returned (run stillHosts 16 (calculator 5 3 Plus)) \<noteq> Some (replicate 16 True)"
proof -
  have len: "length (currentInstructions (calculator 5 3 Plus)) = 4"
    by (simp add: calculator_def setExample_def generateCalculatorInstructions_def)
  have r: "returned (run stillHosts 16 (calculator 5 3 Plus)) =
     Some [True, True, True, True, True, True, True, True,
           True, True, True, True, True, True, True, False]"
    by (rule calculator_run_obs(1))
  have ne: "[True, True, True, True, True, True, True, True,
           True, True, True, True, True, True, True, False] \<noteq> replicate 16 True"
    by (simp add: numeral_eq_Suc)
  have "returned (run stillHosts 16 (calculator 5 3 Plus)) \<noteq> Some (replicate 16 True)"
    unfolding r using ne by simp
  with len r show ?thesis
    by (intro conjI)
qed

section \<open>Determinism up to the host readings\<close>

lemma sans_fields:
  "registers (sansReadings e) = registers e"
  "memory (sansReadings e) = memory e"
  "cache (sansReadings e) = cache e"
  "programCounter (sansReadings e) = programCounter e"
  "clockCycle (sansReadings e) = clockCycle e"
  "history (sansReadings e) = history e"
  "instructionIndex (sansReadings e) = instructionIndex e"
  "currentInstructions (sansReadings e) = currentInstructions e"
  "phaseIndex (sansReadings e) = phaseIndex e"
  by (simp_all add: sansReadings_def)

lemma sans_updates:
  "sansReadings (e\<lparr>registers := rs\<rparr>) = (sansReadings e)\<lparr>registers := rs\<rparr>"
  "sansReadings (e\<lparr>memory := ms\<rparr>) = (sansReadings e)\<lparr>memory := ms\<rparr>"
  "sansReadings (e\<lparr>cache := cs\<rparr>) = (sansReadings e)\<lparr>cache := cs\<rparr>"
  "sansReadings (e\<lparr>history := hi\<rparr>) = (sansReadings e)\<lparr>history := hi\<rparr>"
  "sansReadings (e\<lparr>programCounter := pc\<rparr>) = (sansReadings e)\<lparr>programCounter := pc\<rparr>"
  "sansReadings (e\<lparr>instructionRegister := ir\<rparr>) = (sansReadings e)\<lparr>instructionRegister := ir\<rparr>"
  "sansReadings (e\<lparr>currentPhase := cp\<rparr>) = (sansReadings e)\<lparr>currentPhase := cp\<rparr>"
  "sansReadings (e\<lparr>clockCycle := cc\<rparr>) = (sansReadings e)\<lparr>clockCycle := cc\<rparr>"
  "sansReadings (e\<lparr>phaseIndex := p\<rparr>) = (sansReadings e)\<lparr>phaseIndex := p\<rparr>"
  "sansReadings (e\<lparr>instructionIndex := i\<rparr>) = (sansReadings e)\<lparr>instructionIndex := i\<rparr>"
  by (simp_all add: sansReadings_def)

lemma sans_addBusTransfer:
  "sansReadings (addBusTransfer rd ty src dst v e) =
     addBusTransfer \<lparr>now_id = 0, random_id = 0, now_stamp = 0\<rparr> ty src dst v (sansReadings e)"
  by (simp add: sansReadings_def addBusTransfer_def)

lemma checkCache_sans:
  "checkCache a (sansReadings e) = sansReadingsResult (checkCache a e)"
  by (simp add: checkCache_def Let_def sansReadingsResult_def sans_fields sans_updates
      split: option.splits)

lemma updateCache_sans:
  "updateCache a v (sansReadings e) = sansReadingsResult (updateCache a v e)"
  by (simp add: updateCache_def Let_def sansReadingsResult_def sans_fields sans_updates
      split: option.splits)

lemma executeFetch_sans:
  "executeFetch stillHost ins st (sansReadings e) =
     map_prod id sansReadings (executeFetch h ins st e)"
  by (simp add: executeFetch_def Let_def sans_fields sans_updates
      sans_addBusTransfer stillHost_def split: option.splits)

lemma executeDecode_sans:
  "executeDecode ins st (sansReadings e) = map_prod id sansReadings (executeDecode ins st e)"
  by (simp add: executeDecode_def sans_fields sans_updates split: option.splits)

lemma executeStore_sans:
  "executeStore ins st (sansReadings e) = map_prod id sansReadings (executeStore ins st e)"
  by (simp add: executeStore_def sans_fields sans_updates)

lemma executeMOV_sans:
  "executeMOV ins st (sansReadings e) = sansReadingsResult (executeMOV ins st e)"
  by (simp add: executeMOV_def sansReadingsResult_def sans_fields sans_updates
      split: option.splits operand.splits)

lemma executeALU_sans:
  "executeALU stillHost ins st (sansReadings e) = sansReadingsResult (executeALU h ins st e)"
  by (simp add: executeALU_def Let_def sansReadingsResult_def sans_fields sans_updates
      sans_addBusTransfer stillHost_def split: option.splits)

lemma executeLOAD_sans:
  "executeLOAD stillHost ins st (sansReadings e) = sansReadingsResult (executeLOAD h ins st e)"
proof (cases "i_address ins")
  case None
  then show ?thesis
    by (simp add: executeLOAD_def Let_def sansReadingsResult_def sans_fields sans_updates
      sans_addBusTransfer stillHost_def split: option.splits operand.splits)
next
  case (Some a)
  show ?thesis
  proof (cases "checkCache a e")
    case (Inl err)
    then show ?thesis
      using Some
      by (simp add: executeLOAD_def Let_def sansReadingsResult_def sans_fields sans_updates
        checkCache_sans split: option.splits operand.splits)
  next
    case (Inr p)
    obtain r e1 where p: "p = (r, e1)" by (cases p)
    show ?thesis
      using Inr p Some
      by (simp add: executeLOAD_def Let_def sansReadingsResult_def sans_fields sans_updates
        checkCache_sans sans_addBusTransfer stillHost_def
        split: option.splits operand.splits)
  qed
qed

lemma executeSTORE_sans:
  "executeSTORE stillHost ins st (sansReadings e) = sansReadingsResult (executeSTORE h ins st e)"
proof -
  have u: "\<And>a v e1. updateCache a v (sansReadings e1) = sansReadingsResult (updateCache a v e1)"
    by (rule updateCache_sans)
  show ?thesis
    by (simp add: executeSTORE_def Let_def sansReadingsResult_def sans_fields
      sans_updates [symmetric] u sans_addBusTransfer stillHost_def
      split: option.splits sum.splits prod.splits)
qed


lemma executeExecute_sans:
  "executeExecute stillHost ins st (sansReadings e) =
     sansReadingsResult (executeExecute h ins st e)"
  by (cases "i_opcode ins")
     (simp_all add: executeExecute_def executeLOAD_sans [where h = h]
        executeSTORE_sans [where h = h] executeALU_sans [where h = h] executeMOV_sans,
      simp_all add: sansReadingsResult_def)

lemma advance_sans: "advance (sansReadings e) = sansReadings (advance e)"
  by (simp add: advance_def sans_fields sans_updates)

lemma record_step_sans:
  "(case sansReadingsResult x of
      Inl err \<Rightarrow> Inl err
    | Inr (st', e2) \<Rightarrow>
        (let e3 = advance (e2\<lparr>history := history e2 @ [st']\<rparr>)
         in Inr (instructionIndex e3 < length (currentInstructions e3), e3))) =
   sansReadingsResult
     (case x of
        Inl err \<Rightarrow> Inl err
      | Inr (st', e2) \<Rightarrow>
          (let e3 = advance (e2\<lparr>history := history e2 @ [st']\<rparr>)
           in Inr (instructionIndex e3 < length (currentInstructions e3), e3)))"
  by (cases x)
     (auto simp: sansReadingsResult_def Let_def sans_updates [symmetric] advance_sans sans_fields)

lemma step_sans: "step stillHost (sansReadings e) = sansReadingsResult (step h e)"
proof (cases "instructionIndex e < length (currentInstructions e)")
  case False
  then show ?thesis
    by (auto simp: step_def sansReadingsResult_def sans_fields)
next
  case True
  let ?ins = "currentInstructions e ! instructionIndex e"
  let ?ph = "nthOpt phases (phaseIndex e)"
  let ?e1 = "e\<lparr>currentPhase := ?ph, clockCycle := clockCycle e + 1\<rparr>"
  let ?st = "\<lparr>s_cycle = clockCycle e + 1, s_phase = ?ph, s_instruction = Some ?ins,
              s_registerChanges = [], s_memoryChanges = []\<rparr>"
  let ?body = "\<lambda>h e1. case ?ph of
                    Some FETCH \<Rightarrow> Inr (executeFetch h ?ins ?st e1)
                  | Some DECODE \<Rightarrow> Inr (executeDecode ?ins ?st e1)
                  | Some EXECUTE \<Rightarrow> executeExecute h ?ins ?st e1
                  | Some STORE_PHASE \<Rightarrow> Inr (executeStore ?ins ?st e1)
                  | _ \<Rightarrow> Inr (?st, e1)"
  have ne: "currentInstructions e \<noteq> []"
    using True by auto
  have body: "?body stillHost (sansReadings ?e1) = sansReadingsResult (?body h ?e1)"
    by (simp add: sansReadingsResult_def executeFetch_sans [where h = h] executeDecode_sans
        executeStore_sans executeExecute_sans [where h = h]
        split: option.splits instruction_phase.splits)
  have l: "step stillHost (sansReadings e) =
        (case ?body stillHost (sansReadings ?e1) of
              Inl err \<Rightarrow> Inl err
            | Inr (st', e2) \<Rightarrow>
                (let e3 = advance (e2\<lparr>history := history e2 @ [st']\<rparr>)
                 in Inr (instructionIndex e3 < length (currentInstructions e3), e3)))"
    using True ne
    by (simp add: step_def Let_def sans_fields sans_updates
        cong: option.case_cong instruction_phase.case_cong)
  have r: "step h e =
        (case ?body h ?e1 of
              Inl err \<Rightarrow> Inl err
            | Inr (st', e2) \<Rightarrow>
                (let e3 = advance (e2\<lparr>history := history e2 @ [st']\<rparr>)
                 in Inr (instructionIndex e3 < length (currentInstructions e3), e3)))"
    using True ne
    by (simp add: step_def Let_def cong: option.case_cong instruction_phase.case_cong)
  show ?thesis
    unfolding l r body by (rule record_step_sans)
qed

lemma run_sans: "run stillHosts n (sansReadings e) = sansReadingsResult (run hs n e)"
proof (induction n arbitrary: e hs)
  case 0
  show ?case by (simp add: sansReadingsResult_def)
next
  case (Suc n)
  have s: "step (stillHosts 0) (sansReadings e) = sansReadingsResult (step (hs 0) e)"
    by (simp add: stillHosts_def step_sans [where h = "hs 0"])
  have hs: "(\<lambda>k. stillHosts (Suc k)) = stillHosts"
    by (simp add: stillHosts_def)
  show ?case
  proof (cases "step (hs 0) e")
    case (Inl err)
    then show ?thesis using s by (simp add: sansReadingsResult_def)
  next
    case (Inr p)
    obtain b e1 where p: "p = (b, e1)" by (cases p)
    have st: "step (stillHosts 0) (sansReadings e) = Inr (b, sansReadings e1)"
      using s Inr p by (simp add: sansReadingsResult_def)
    show ?thesis
      using Inr p st Suc.IH [of e1 "\<lambda>k. hs (Suc k)"]
      by (cases "run (\<lambda>k. hs (Suc k)) n e1") (auto simp: hs sansReadingsResult_def)
  qed
qed

text \<open>
  Claim C7, as amended. For every starting state and every number of calls, two replays
  of \<open>step()\<close> under any two hosts give the same results and the same final states up
  to the host readings: the calls return the same booleans (or raise alike), the
  histories are identical, and the final states are identical except for the id and the
  timestamp of each bus transfer, which are read from \<open>Date.now()\<close> and
  \<open>Math.random()\<close>.
\<close>

theorem replays_agree_up_to_host_readings:
  "sansReadingsResult (run hs n e) = sansReadingsResult (run hs' n e) \<and>
   returned (run hs n e) = returned (run hs' n e) \<and>
   map_option history (engineAfter (run hs n e)) =
     map_option history (engineAfter (run hs' n e))"
proof -
  have eq: "sansReadingsResult (run hs n e) = sansReadingsResult (run hs' n e)"
    by (simp add: run_sans [symmetric])
  have ret: "\<And>r. returned (sansReadingsResult r) = returned r"
    by (case_tac r) (auto simp: returned_def sansReadingsResult_def)
  have hist: "\<And>r. map_option history (engineAfter (sansReadingsResult r)) =
                 map_option history (engineAfter r)"
    by (case_tac r) (auto simp: engineAfter_def sansReadingsResult_def sans_fields)
  from eq ret [of "run hs n e"] ret [of "run hs' n e"]
    hist [of "run hs n e"] hist [of "run hs' n e"]
  show ?thesis by simp
qed


text \<open>
  Claim C7 as stated fails: the bus log is not replayed identically. Two full replays of
  the calculator program for 5 + 3, one under a clock that reads 0 and one under a clock
  that reads 1, end with bus logs whose timestamps differ, hence with different final
  states.
\<close>

theorem replays_differ_in_the_bus_log:
  "map_option (map b_timestamp \<circ> busTransfers)
     (engineAfter (run stillHosts 16 (calculator 5 3 Plus))) =
     Some [0, 0, 0, 0, 0, 0, 0, 0, 0, 0, 0, 0, 0, 0] \<and>
   map_option (map b_timestamp \<circ> busTransfers)
     (engineAfter (run laterHosts 16 (calculator 5 3 Plus))) =
     Some [1, 1, 1, 1, 1, 1, 1, 1, 1, 1, 1, 1, 1, 1] \<and>
   engineAfter (run stillHosts 16 (calculator 5 3 Plus)) \<noteq>
   engineAfter (run laterHosts 16 (calculator 5 3 Plus))"
proof -
  have a: "map_option (map b_timestamp \<circ> busTransfers)
     (engineAfter (run stillHosts 16 (calculator 5 3 Plus))) =
     Some [0, 0, 0, 0, 0, 0, 0, 0, 0, 0, 0, 0, 0, 0]"
    by (simp add: calculator_run_obs(5) stillHosts_def stillHost_def)
  have b: "map_option (map b_timestamp \<circ> busTransfers)
     (engineAfter (run laterHosts 16 (calculator 5 3 Plus))) =
     Some [1, 1, 1, 1, 1, 1, 1, 1, 1, 1, 1, 1, 1, 1]"
    by (simp add: calculator_run_obs(5) laterHosts_def)
  have c: "engineAfter (run stillHosts 16 (calculator 5 3 Plus)) \<noteq>
           engineAfter (run laterHosts 16 (calculator 5 3 Plus))"
  proof
    assume "engineAfter (run stillHosts 16 (calculator 5 3 Plus)) =
            engineAfter (run laterHosts 16 (calculator 5 3 Plus))"
    with a b show False by simp
  qed
  show ?thesis
    using a b c by (intro conjI)
qed

section \<open>Where the two paths and the store and load do agree\<close>

text \<open>When every line of L1 is valid, a read miss and a write miss overwrite the same line.\<close>

lemma victims_agree_when_all_valid:
  assumes "list_all l_valid ls"
  shows "readVictim ls = writeVictim ls"
proof -
  have "filter (\<lambda>p. l_valid (snd p)) (enumerate 0 ls) = enumerate 0 ls"
    using assms by (auto simp: filter_id_conv in_set_enumerate_eq list_all_length)
  then show ?thesis
    by (cases ls) (simp_all add: readVictim_def writeVictim_def Let_def)
qed

text \<open>
  Where the stored value is not 0 the load does return it: a STORE leaves the register's
  value in the cell, and a LOAD from a cell that holds a value other than 0 leaves that
  value in its destination register, hit or miss.
\<close>

lemma executeSTORE_writes_cell:
  assumes "linesPresent e" and "i_destination ins = Some d" and "d \<noteq> []"
    and "findIndex (\<lambda>r. r_name r = d) (registers e) = Some ri"
    and "i_address ins = Some a"
    and "findIndex (\<lambda>m. strictEq (m_address m) a) (memory e) = Some mi"
  shows "\<exists>st' e'. executeSTORE h ins st e = Inr (st', e') \<and>
           map_option m_value (memoryCell a e') = Some (r_value (registers e ! ri))"
proof -
  let ?v = "r_value (registers e ! ri)"
  let ?e1 = "e\<lparr>memory := (memory e)
                [mi := (memory e ! mi)\<lparr>m_value := ?v, m_active := True, m_used := True\<rparr>]\<rparr>"
  have lp: "linesPresent ?e1"
    using assms(1) by (simp add: linesPresent_def)
  from updateCache_total [OF lp, of a ?v] obtain r e2 where c: "updateCache a ?v ?e1 = Inr (r, e2)"
    by blast
  have m: "memory e2 = memory ?e1"
    using c by (auto simp: updateCache_def Let_def split: option.splits)
  from findIndex_Some [OF assms(6)] have mi: "mi < length (memory e)"
    "strictEq (m_address (memory e ! mi)) a"
    by simp_all
  have f: "findIndex (\<lambda>m. strictEq (m_address m) a) (memory ?e1) = Some mi"
    using assms(6) mi by (simp add: findIndex_update_same)
  have cell: "map_option m_value (memoryCell a e2) = Some ?v"
    using f mi by (simp add: memoryCell_def m)
  show ?thesis
    using assms(2-6) c cell
    by (auto simp: executeSTORE_def Let_def addBusTransfer_def memoryCell_def)
qed

lemma executeLOAD_reads_cell:
  assumes "linesPresent e" and "i_operand1 ins = Some (Num n)"
    and "i_destination ins = Some d" and "d \<noteq> []"
    and "findIndex (\<lambda>r. r_name r = d) (registers e) = Some ri"
    and "i_address ins = Some a"
    and "map_option m_value (memoryCell a e) = Some v" and "v \<noteq> 0"
  shows "\<exists>st' e'. executeLOAD h ins st e = Inr (st', e') \<and> registerValue d e' = Some v"
proof -
  from checkCache_total [OF assms(1), of a] obtain r e1 where c: "checkCache a e = Inr (r, e1)"
    by blast
  have fr: "memory e1 = memory e" "registers e1 = registers e"
    using c by (auto simp: checkCache_def Let_def split: option.splits)
  from assms(7) obtain mi where mi: "findIndex (\<lambda>m. strictEq (m_address m) a) (memory e) = Some mi"
    and val: "m_value (memory e ! mi) = v"
    by (auto simp: memoryCell_def)
  from findIndex_Some [OF assms(5)] have ri: "ri < length (registers e)" "r_name (registers e ! ri) = d"
    by simp_all
  have keep: "findIndex (\<lambda>r. r_name r = d)
                  ((registers e)[ri := (registers e ! ri)\<lparr>r_value := v, r_active := True\<rparr>]) = Some ri"
    using assms(5) ri by (simp add: findIndex_update_same)
  show ?thesis
    using assms(2-6,8) c mi val ri keep
    by (cases "snd r")
       (auto simp: executeLOAD_def Let_def addBusTransfer_def fr registerValue_def
          setRegister_def pushRegisterChange_def)
qed

end
